theory Spec2Isabelle
  imports Complex_Main "HOL-Library.Signed_Division" "HOL-Library.AList"
begin

section \<open>Data model (types.ts)\<close>

text \<open>
  The enums of \<^verbatim>\<open>types.ts\<close> are datatypes and its interfaces are records. A record field
  whose source name is shared between interfaces, or clashes with a constant of HOL, carries a
  suffix: \<open>N\<close> for \<^verbatim>\<open>GameNode\<close>, \<open>U\<close> for \<^verbatim>\<open>Unit\<close>, \<open>G\<close> for \<^verbatim>\<open>GameState\<close>.

  JavaScript numbers: the day counter, gold, manpower, fortification level and the progress
  counters only ever receive integer constants through \<open>+\<close>, \<open>-\<close> and \<open>min\<close>, so they are
  \<open>int\<close>. Unit strength is divided by a combat modifier, and a result of \<^verbatim>\<open>Math.random()\<close> is a
  fraction: these are \<open>real\<close>, holding the value of the double, and every product, quotient,
  sum and difference of them is rounded as IEEE 754 rounds it (section \<open>JavaScript numbers\<close>).
  \<^verbatim>\<open>string | null\<close> is \<open>string option\<close>.
\<close>

datatype Faction = ROME | CARTHAGE | NEUTRAL | SPECTATOR

datatype NodeType = CITY | PORT | SEA

datatype UnitType = LEGION | MERCENARY | FLEET

record GameNode =
  idN :: string
  nameN :: string
  typeN :: NodeType
  xN :: int
  yN :: int
  ownerN :: Faction
  income :: int
  manpowerGrowth :: int
  localManpower :: int
  maxManpower :: int
  connections :: "string list"
  fortificationLevel :: int

record Unit =
  idU :: string
  ownerU :: Faction
  typeU :: UnitType
  strength :: real
  maxStrength :: real
  locationId :: string
  destinationId :: "string option"
  path :: "string list"
  originId :: string
  progress :: int
  isMoving :: bool
  isTraining :: bool
  trainingProgress :: int

record Resources =
  gold :: "Faction \<Rightarrow> int"
  totalManpower :: "Faction \<Rightarrow> int"

text \<open>
  \<^verbatim>\<open>Record<string, GameNode>\<close> is an association list: \<^verbatim>\<open>Object.values\<close> enumerates the
  properties in insertion order (the node keys are not integer-like), \<^verbatim>\<open>nodes[k]\<close> is
  \<open>map_of\<close> and an assignment \<^verbatim>\<open>nodes[k] = v\<close> is \<open>AList.update\<close>, which keeps the position of
  an existing key and appends a new one.
\<close>

type_synonym NodeMap = "(string \<times> GameNode) list"

record GameState =
  nodes :: NodeMap
  units :: "Unit list"
  playerFaction :: Faction
  resources :: Resources
  day :: int
  isWinter :: bool
  gameSpeed :: int
  selectedNodeId :: "string option"
  isTargetingMode :: bool
  logG :: "string list"
  gameOver :: bool
  winner :: "Faction option"
  mapImage :: "string option"
  startScreenImage :: "string option"

text \<open>
  The \<^verbatim>\<open>App\<close> component keeps \<^verbatim>\<open>hasStarted\<close> in a state cell of its own, beside the
  \<^verbatim>\<open>GameState\<close>.
\<close>

record App = GameState +
  hasStarted :: bool

section \<open>Constants (constants.ts)\<close>

definition INITIAL_GOLD :: int where "INITIAL_GOLD = 800"

definition MAX_FORTIFICATION :: int where "MAX_FORTIFICATION = 3"

definition FORTIFY_COST :: int where "FORTIFY_COST = 150"

definition WINTER_START_DAY :: int where "WINTER_START_DAY = 300"

definition AUTUMN_START_DAY :: int where "AUTUMN_START_DAY = 240"

definition WINTER_DURATION :: int where "WINTER_DURATION = 65"

definition MOVEMENT_SPEED :: int where "MOVEMENT_SPEED = 4"

definition TRAINING_SPEED :: int where "TRAINING_SPEED = 5"

definition DAILY_TRADE_INCOME :: int where "DAILY_TRADE_INCOME = 2"

record Cost =
  goldC :: int
  manpowerC :: int

definition UNIT_COST_ARMY :: Cost where
  "UNIT_COST_ARMY = \<lparr>goldC = 100, manpowerC = 200\<rparr>"

definition UNIT_COST_FLEET :: Cost where
  "UNIT_COST_FLEET = \<lparr>goldC = 200, manpowerC = 100\<rparr>"

definition UNIT_STRENGTH_ARMY :: real where "UNIT_STRENGTH_ARMY = 100"

text \<open>
  \<^verbatim>\<open>createNode\<close> spreads the given fields over the defaults income 50, manpowerGrowth 2,
  localManpower 200, maxManpower 1000, fortificationLevel 0. The seven fields that every call
  must give are arguments; the optional ones are \<open>option\<close>s, \<open>None\<close> for a field the call
  leaves out.
\<close>

definition createNode ::
  "string \<Rightarrow> string \<Rightarrow> NodeType \<Rightarrow> int \<Rightarrow> int \<Rightarrow> Faction \<Rightarrow> string list \<Rightarrow>
   int option \<Rightarrow> int option \<Rightarrow> int option \<Rightarrow> int option \<Rightarrow> int option \<Rightarrow> GameNode" where
  "createNode i nm t px py ow cs inc grow loc mx fort =
     \<lparr>idN = i, nameN = nm, typeN = t, xN = px, yN = py, ownerN = ow,
      income = (case inc of None \<Rightarrow> 50 | Some v \<Rightarrow> v),
      manpowerGrowth = (case grow of None \<Rightarrow> 2 | Some v \<Rightarrow> v),
      localManpower = (case loc of None \<Rightarrow> 200 | Some v \<Rightarrow> v),
      maxManpower = (case mx of None \<Rightarrow> 1000 | Some v \<Rightarrow> v),
      connections = cs,
      fortificationLevel = (case fort of None \<Rightarrow> 0 | Some v \<Rightarrow> v)\<rparr>"

definition INITIAL_NODES :: NodeMap where
  "INITIAL_NODES =
   [(''rome'', createNode ''rome'' ''Roma'' PORT 55 35 ROME
       [''capua'', ''genoa'', ''tyrrhenian_sea''] (Some 200) (Some 10) (Some 800) (Some 2000) (Some 1)),
    (''capua'', createNode ''capua'' ''Capua'' CITY 60 40 ROME
       [''rome'', ''tarentum''] (Some 100) (Some 5) (Some 400) None None),
    (''tarentum'', createNode ''tarentum'' ''Tarentum'' PORT 65 45 ROME
       [''capua'', ''ionian_sea''] (Some 80) (Some 5) (Some 400) None None),
    (''genoa'', createNode ''genoa'' ''Genua'' CITY 48 25 ROME
       [''rome'', ''massilia'', ''cisalpine_gaul''] (Some 50) (Some 3) (Some 300) None None),
    (''cisalpine_gaul'', createNode ''cisalpine_gaul'' ''Gallia Cis.'' CITY 52 18 NEUTRAL
       [''genoa''] (Some 40) (Some 8) (Some 500) None None),
    (''syracuse'', createNode ''syracuse'' ''Syracusae'' PORT 60 60 NEUTRAL
       [''tyrrhenian_sea'', ''ionian_sea'', ''sicilian_strait''] (Some 150) (Some 5) (Some 500) None None),
    (''sardinia'', createNode ''sardinia'' ''Sardinia'' PORT 40 50 NEUTRAL
       [''tyrrhenian_sea'', ''western_med''] (Some 50) (Some 2) (Some 200) None None),
    (''carthage'', createNode ''carthage'' ''Carthago'' PORT 50 70 CARTHAGE
       [''utica'', ''sicilian_strait'', ''western_med''] (Some 250) (Some 8) (Some 800) (Some 2000) (Some 1)),
    (''utica'', createNode ''utica'' ''Utica'' CITY 45 72 CARTHAGE
       [''carthage'', ''cirta''] (Some 100) (Some 5) (Some 400) None None),
    (''cirta'', createNode ''cirta'' ''Cirta'' CITY 35 75 NEUTRAL
       [''utica'', ''mauretania''] (Some 60) (Some 4) (Some 300) None None),
    (''mauretania'', createNode ''mauretania'' ''Mauretania'' CITY 20 72 NEUTRAL
       [''cirta'', ''gades''] (Some 40) (Some 6) (Some 400) None None),
    (''nova_carthago'', createNode ''nova_carthago'' ''Nova Carthago'' PORT 20 60 CARTHAGE
       [''saguntum'', ''western_med'', ''gades''] (Some 180) (Some 6) (Some 500) None None),
    (''saguntum'', createNode ''saguntum'' ''Saguntum'' PORT 22 50 NEUTRAL
       [''nova_carthago'', ''massilia'', ''western_med''] (Some 100) (Some 4) (Some 300) None None),
    (''gades'', createNode ''gades'' ''Gades'' PORT 10 65 NEUTRAL
       [''nova_carthago'', ''mauretania''] (Some 80) (Some 3) (Some 300) None None),
    (''massilia'', createNode ''massilia'' ''Massilia'' PORT 35 30 NEUTRAL
       [''genoa'', ''saguntum'', ''western_med''] (Some 120) (Some 4) (Some 400) None None),
    (''tyrrhenian_sea'', createNode ''tyrrhenian_sea'' ''Tyrrhenian Sea'' SEA 50 45 NEUTRAL
       [''rome'', ''syracuse'', ''sardinia''] (Some 0) (Some 0) (Some 0) None None),
    (''western_med'', createNode ''western_med'' ''Western Med'' SEA 30 55 NEUTRAL
       [''massilia'', ''saguntum'', ''nova_carthago'', ''sardinia'', ''carthage''] (Some 0) (Some 0) (Some 0) None None),
    (''ionian_sea'', createNode ''ionian_sea'' ''Ionian Sea'' SEA 75 55 NEUTRAL
       [''tarentum'', ''syracuse''] (Some 0) (Some 0) (Some 0) None None),
    (''sicilian_strait'', createNode ''sicilian_strait'' ''Sicilian Strait'' SEA 55 65 NEUTRAL
       [''carthage'', ''syracuse''] (Some 0) (Some 0) (Some 0) None None)]"

text \<open>The first \<^verbatim>\<open>useState\<close> of \<^verbatim>\<open>App\<close>.\<close>

definition initialGold :: "Faction \<Rightarrow> int" where
  "initialGold f = (case f of ROME \<Rightarrow> INITIAL_GOLD | CARTHAGE \<Rightarrow> INITIAL_GOLD | _ \<Rightarrow> 0)"

definition initialApp :: App where
  "initialApp =
     \<lparr>nodes = INITIAL_NODES, units = [], playerFaction = ROME,
      resources = \<lparr>gold = initialGold, totalManpower = (\<lambda>_. 0)\<rparr>,
      day = 1, isWinter = False, gameSpeed = 1, selectedNodeId = None,
      isTargetingMode = False, logG = [''Welcome, General. The Punic Wars begin.''],
      gameOver = False, winner = None, mapImage = None, startScreenImage = None,
      hasStarted = False\<rparr>"

section \<open>JavaScript helpers\<close>

text \<open>
  Truthiness of a \<^verbatim>\<open>string | null\<close>: \<^verbatim>\<open>null\<close> and the empty string are falsy.
  \<^verbatim>\<open>a || b\<close> on such values is \<open>orElse\<close>.
\<close>

definition truthy :: "string option \<Rightarrow> bool" where
  "truthy v = (case v of None \<Rightarrow> False | Some s \<Rightarrow> s \<noteq> [])"

definition orElse :: "string option \<Rightarrow> string option \<Rightarrow> string option" where
  "orElse a b = (if truthy a then a else b)"

text \<open>The template literal \<^verbatim>\<open>${faction}\<close> prints the enum's string value.\<close>

fun factionStr :: "Faction \<Rightarrow> string" where
  "factionStr ROME = ''ROME''"
| "factionStr CARTHAGE = ''CARTHAGE''"
| "factionStr NEUTRAL = ''NEUTRAL''"
| "factionStr SPECTATOR = ''SPECTATOR''"

text \<open>\<^verbatim>\<open>Array.prototype.findIndex\<close>: the first index that satisfies the test, if any.\<close>

fun findIndex :: "('a \<Rightarrow> bool) \<Rightarrow> 'a list \<Rightarrow> nat option" where
  "findIndex P [] = None"
| "findIndex P (x # xs) =
     (if P x then Some 0 else (case findIndex P xs of None \<Rightarrow> None | Some i \<Rightarrow> Some (Suc i)))"

section \<open>JavaScript numbers\<close>

text \<open>
  A JavaScript number is an IEEE 754 binary64 value, and \<^verbatim>\<open>*\<close>, \<^verbatim>\<open>/\<close>, \<^verbatim>\<open>+\<close>, \<^verbatim>\<open>-\<close> return the
  exact result rounded to the nearest such value, a tie going to the even significand. A finite
  double is an integer multiple of \<open>2 ^ (e - 52)\<close> of magnitude below \<open>2 ^ (e + 1)\<close>, where the
  exponent \<open>e\<close> ranges from \<open>-1022\<close> to \<open>1023\<close>; below \<open>2 ^ -1022\<close> the exponent stays \<open>-1022\<close>
  (subnormal numbers).

  \<open>expo x\<close> is the exponent of the binade of \<open>x\<close>, found by counting up from \<open>-1022\<close>; \<open>ulp x\<close> is
  the spacing of the doubles there; \<open>rne\<close> rounds to the nearest integer, ties to even; \<open>fl\<close>
  rounds a real to the nearest double. A comparison of two doubles is the comparison of their
  values; a draw is compared with the fractions 0.6 and 0.7, as a double compares with the
  literals (lemmas \<open>literal_06\<close>, \<open>literal_07\<close>). The model has no \<^verbatim>\<open>Infinity\<close> and no
  \<^verbatim>\<open>NaN\<close>: where a result rounds to \<open>2 ^ 1024\<close> or more the machine returns \<^verbatim>\<open>Infinity\<close>, and
  there \<open>fl\<close> is not the machine's rounding. The numbers of the game are far from there: a
  unit is created with strength 100, and the winner of a combat is left with
  \<open>max 10 (strength - 20 / modifier)\<close>.
\<close>

fun binade :: "nat \<Rightarrow> int \<Rightarrow> real \<Rightarrow> int" where
  "binade 0 e x = e"
| "binade (Suc n) e x = (if 2 powi (e + 1) \<le> x then binade n (e + 1) x else e)"

definition expo :: "real \<Rightarrow> int" where
  "expo x = binade 2045 (- 1022) \<bar>x\<bar>"

definition ulp :: "real \<Rightarrow> real" where
  "ulp x = 2 powi (expo x - 52)"

definition rne :: "real \<Rightarrow> int" where
  "rne q = (let n = \<lfloor>q\<rfloor>; d = q - of_int n
            in if d < 1 / 2 then n else if 1 / 2 < d then n + 1 else if even n then n else n + 1)"

definition fl :: "real \<Rightarrow> real" where
  "fl x = of_int (rne (x / ulp x)) * ulp x"

text \<open>The four operations on numbers, and the reals that are finite doubles.\<close>

definition fmul :: "real \<Rightarrow> real \<Rightarrow> real" where
  "fmul x y = fl (x * y)"

definition fdiv :: "real \<Rightarrow> real \<Rightarrow> real" where
  "fdiv x y = fl (x / y)"

definition fadd :: "real \<Rightarrow> real \<Rightarrow> real" where
  "fadd x y = fl (x + y)"

definition fsub :: "real \<Rightarrow> real \<Rightarrow> real" where
  "fsub x y = fl (x - y)"

definition isDouble :: "real \<Rightarrow> bool" where
  "isDouble x \<longleftrightarrow> fl x = x \<and> \<bar>x\<bar> < 2 powi 1024"

section \<open>The calendar of the tick engine (updateGame, step 1)\<close>

text \<open>
  \<^verbatim>\<open>const dayOfYear = newState.day % 365\<close>; the remainder of JavaScript takes the sign of
  the dividend, which is \<open>smod\<close>.
  \<^verbatim>\<open>newState.isWinter = dayOfYear >= WINTER_START_DAY ||
     dayOfYear < (WINTER_START_DAY + WINTER_DURATION) % 365 && dayOfYear < WINTER_DURATION\<close>,
  where \<^verbatim>\<open>&&\<close> binds tighter than \<^verbatim>\<open>||\<close>.
\<close>

definition dayOfYear :: "int \<Rightarrow> int" where
  "dayOfYear d = d smod 365"

definition winterOn :: "int \<Rightarrow> bool" where
  "winterOn doy \<longleftrightarrow>
     doy \<ge> WINTER_START_DAY \<or>
     (doy < (WINTER_START_DAY + WINTER_DURATION) smod 365 \<and> doy < WINTER_DURATION)"

section \<open>The environment\<close>

text \<open>
  What a tick or a command reads from outside the state: the successive results of
  \<^verbatim>\<open>Math.random()\<close>, the successive results of \<^verbatim>\<open>uuidv4()\<close>, and the text that
  \<^verbatim>\<open>generateBattleReport\<close> resolves to. A function that draws takes the number of draws made
  so far and returns the new number.
\<close>

record Env =
  random :: "nat \<Rightarrow> real"
  uuidv4 :: "nat \<Rightarrow> string"
  battleReport :: "string \<Rightarrow> Faction \<Rightarrow> Faction \<Rightarrow> string"

text \<open>\<^verbatim>\<open>Math.random()\<close> returns a number in \<open>[0, 1)\<close>.\<close>

definition validEnv :: "Env \<Rightarrow> bool" where
  "validEnv env \<longleftrightarrow> (\<forall>n. 0 \<le> random env n \<and> random env n < 1)"

section \<open>Pathfinding (findPath)\<close>

text \<open>
  A property read of \<^verbatim>\<open>undefined\<close> throws a TypeError. Every function that can reach one
  returns an \<open>option\<close>, \<open>None\<close> for the throw. \<^verbatim>\<open>findPath\<close> itself returns
  \<^verbatim>\<open>string[] | null\<close>: \<open>Path p\<close> or \<open>NoPath\<close>.
\<close>

datatype PathResult = Path "string list" | NoPath

definition hasFleet :: "Unit list \<Rightarrow> Faction \<Rightarrow> string \<Rightarrow> bool" where
  "hasFleet us faction nid \<longleftrightarrow>
     list_ex (\<lambda>u. locationId u = nid \<and> ownerU u = faction \<and> typeU u = FLEET) us"

text \<open>
  The \<^verbatim>\<open>for (const neighborId of node.connections)\<close> loop of one dequeued entry. The pair is
  the queue and the visited set. \<^verbatim>\<open>neighbor.type\<close> is only read when the dequeued node is
  not a sea node (\<^verbatim>\<open>&&\<close> short-circuits).
\<close>

fun expand ::
  "NodeMap \<Rightarrow> Unit list \<Rightarrow> Faction \<Rightarrow> GameNode \<Rightarrow> string list \<Rightarrow> string list \<Rightarrow>
   (string \<times> string list) list \<times> string list \<Rightarrow>
   ((string \<times> string list) list \<times> string list) option" where
  "expand ns us faction node p [] (queue, visited) = Some (queue, visited)"
| "expand ns us faction node p (neighborId # rest) (queue, visited) =
     (if neighborId \<in> set visited then expand ns us faction node p rest (queue, visited)
      else if typeN node \<noteq> SEA then
        (case map_of ns neighborId of
           None \<Rightarrow> None
         | Some neighbor \<Rightarrow>
             if typeN neighbor = SEA \<and> \<not> hasFleet us faction neighborId
             then expand ns us faction node p rest (queue, visited)
             else expand ns us faction node p rest
                    (queue @ [(neighborId, p @ [neighborId])], neighborId # visited))
      else expand ns us faction node p rest
             (queue @ [(neighborId, p @ [neighborId])], neighborId # visited))"

definition allConnections :: "NodeMap \<Rightarrow> string set" where
  "allConnections ns = (\<Union>(k, n) \<in> set ns. set (connections n))"

lemma expand_measure:
  "expand ns us faction node p cs (queue, visited) = Some (queue', visited') \<Longrightarrow>
   set cs \<subseteq> C \<Longrightarrow> finite C \<Longrightarrow>
   2 * card (C - set visited') + length queue' \<le> 2 * card (C - set visited) + length queue"
proof (induction cs arbitrary: queue visited)
  case Nil
  then show ?case by simp
next
  case (Cons c cs)
  have push: "2 * card (C - set (c # visited)) + length (queue @ [(c, p @ [c])])
      \<le> 2 * card (C - set visited) + length queue" if "c \<notin> set visited"
  proof -
    have "c \<in> C - set visited" using Cons.prems(2) that by auto
    moreover have "C - set (c # visited) = (C - set visited) - {c}" by auto
    ultimately have "card (C - set (c # visited)) = card (C - set visited) - 1"
      and "card (C - set visited) > 0"
      using Cons.prems(3) by (auto simp: card_gt_0_iff)
    then show ?thesis by simp
  qed
  from Cons.prems(2) have sub: "set cs \<subseteq> C" by simp
  show ?case
  proof (cases "c \<in> set visited")
    case True
    with Cons.prems(1) Cons.IH[OF _ sub Cons.prems(3)] show ?thesis by simp
  next
    case False
    note nv = this
    show ?thesis
    proof (cases "typeN node \<noteq> SEA")
      case True
      show ?thesis
      proof (cases "map_of ns c")
        case None
        with Cons.prems(1) nv True show ?thesis by simp
      next
        case (Some nb)
        show ?thesis
        proof (cases "typeN nb = SEA \<and> \<not> hasFleet us faction c")
          case True
          with Cons.prems(1) nv Some \<open>typeN node \<noteq> SEA\<close> Cons.IH[OF _ sub Cons.prems(3)]
          show ?thesis by simp
        next
          case False
          with Cons.prems(1) nv Some \<open>typeN node \<noteq> SEA\<close>
          have "expand ns us faction node p cs (queue @ [(c, p @ [c])], c # visited)
                 = Some (queue', visited')" by auto
          from Cons.IH[OF this sub Cons.prems(3)] push[OF nv] show ?thesis by linarith
        qed
      qed
    next
      case False
      with Cons.prems(1) nv
      have "expand ns us faction node p cs (queue @ [(c, p @ [c])], c # visited)
             = Some (queue', visited')" by auto
      from Cons.IH[OF this sub Cons.prems(3)] push[OF nv] show ?thesis by linarith
    qed
  qed
qed

text \<open>
  The \<^verbatim>\<open>while (queue.length > 0)\<close> loop. \<^verbatim>\<open>id === endId\<close> is tested before
  \<^verbatim>\<open>node.connections\<close> is read, so a missing end node does not throw.
\<close>

function bfs ::
  "NodeMap \<Rightarrow> Unit list \<Rightarrow> Faction \<Rightarrow> string \<Rightarrow> (string \<times> string list) list \<Rightarrow> string list \<Rightarrow>
   PathResult option" where
  "bfs ns us faction endId [] visited = Some NoPath"
| "bfs ns us faction endId ((i, p) # queue) visited =
     (if i = endId then Some (Path p)
      else (case map_of ns i of
              None \<Rightarrow> None
            | Some node \<Rightarrow>
                (case expand ns us faction node p (connections node) (queue, visited) of
                   None \<Rightarrow> None
                 | Some (queue', visited') \<Rightarrow> bfs ns us faction endId queue' visited')))"
  by pat_completeness auto

termination
proof (relation "measure (\<lambda>(ns, us, faction, endId, queue, visited).
          2 * card (allConnections ns - set visited) + length queue)", goal_cases)
  case 1
  then show ?case by simp
next
  case (2 ns us faction endId i p queue visited node x queue' visited')
  have "(i, node) \<in> set ns" using 2(2) by (rule map_of_SomeD)
  then have sub: "set (connections node) \<subseteq> allConnections ns"
    by (auto simp: allConnections_def)
  have fin: "finite (allConnections ns)" by (auto simp: allConnections_def)
  from 2(3,4) have "expand ns us faction node p (connections node) (queue, visited) = Some (queue', visited')"
    by simp
  from expand_measure[OF this sub fin] show ?case by simp
qed

definition findPath :: "string \<Rightarrow> string \<Rightarrow> Faction \<Rightarrow> 'a GameState_scheme \<Rightarrow> PathResult option" where
  "findPath startId endId faction currentState =
     (if startId = endId then Some (Path [])
      else bfs (nodes currentState) (units currentState) faction endId [(startId, [])] [startId])"

section \<open>Combat (handleCombat)\<close>

text \<open>
  The modifier of one side: 1, or 1.5 for a fleet when the node is a sea node; then
  \<^verbatim>\<open>+= loc.fortificationLevel * 0.5\<close> when the node's owner is the unit's owner and the level is
  positive. The literals 1, 1.5 and 0.5 are doubles.
\<close>

definition unitMod :: "GameNode \<Rightarrow> Unit \<Rightarrow> real" where
  "unitMod loc u =
     (let m = (if typeN loc = SEA \<and> typeU u = FLEET then 1.5 else 1)
      in if ownerN loc = ownerU u \<and> fortificationLevel loc > 0
         then fadd m (fmul (real_of_int (fortificationLevel loc)) 0.5) else m)"

text \<open>
  \<^verbatim>\<open>handleCombat(u1, u2, nodes)\<close> draws twice, first for \<^verbatim>\<open>u1\<close>. It writes the new strength
  into the winner object and returns winner and loser; the model returns whether \<^verbatim>\<open>u1\<close>
  won, the winner with its new strength, the loser and the battle text.
  \<^verbatim>\<open>nodes[winner.locationId]?.name || "Open Sea"\<close> falls back on a missing node and on an
  empty name.
\<close>

definition locationName :: "NodeMap \<Rightarrow> string \<Rightarrow> string" where
  "locationName ns k =
     (case map_of ns k of
        None \<Rightarrow> ''Open Sea''
      | Some n \<Rightarrow> if nameN n = [] then ''Open Sea'' else nameN n)"

definition handleCombat ::
  "Env \<Rightarrow> nat \<Rightarrow> Unit \<Rightarrow> Unit \<Rightarrow> NodeMap \<Rightarrow> (bool \<times> Unit \<times> Unit \<times> string) option" where
  "handleCombat env draws u1 u2 ns =
     (case map_of ns (locationId u1) of
        None \<Rightarrow> None
      | Some loc \<Rightarrow>
          (let u1Mod = unitMod loc u1;
               u2Mod = unitMod loc u2;
               u1Roll = fmul (fmul (random env draws) (strength u1)) u1Mod;
               u2Roll = fmul (fmul (random env (draws + 1)) (strength u2)) u2Mod;
               firstWon = (u1Roll \<ge> u2Roll);
               winner = (if firstWon
                         then u1\<lparr>strength := max 10 (fsub (strength u1) (fdiv 20 u1Mod))\<rparr>
                         else u2\<lparr>strength := max 10 (fsub (strength u2) (fdiv 20 u2Mod))\<rparr>);
               loser = (if firstWon then u2 else u1);
               locName = locationName ns (locationId winner);
               flavor = battleReport env locName (ownerU winner) (ownerU loser)
           in Some (firstWon, winner, loser, flavor)))"

section \<open>The tick engine (updateGame)\<close>

subsection \<open>Step 2: resources\<close>

definition regenNode :: "GameNode \<Rightarrow> GameNode" where
  "regenNode node =
     (if ownerN node \<noteq> NEUTRAL \<and> localManpower node < maxManpower node
      then node\<lparr>localManpower := min (maxManpower node) (localManpower node + manpowerGrowth node)\<rparr>
      else node)"

definition regenNodes :: "NodeMap \<Rightarrow> NodeMap" where
  "regenNodes ns = map (\<lambda>(k, n). (k, regenNode n)) ns"

definition tradeIncome :: "Faction \<Rightarrow> NodeMap \<Rightarrow> int" where
  "tradeIncome f ns =
     int (length (filter (\<lambda>n. ownerN n = f \<and> typeN n = SEA) (map snd ns))) * DAILY_TRADE_INCOME"

definition annualIncome :: "Faction \<Rightarrow> NodeMap \<Rightarrow> int" where
  "annualIncome f ns =
     foldl (\<lambda>sum n. sum + income n) 0 (filter (\<lambda>n. ownerN n = f) (map snd ns))"

definition addGold :: "Faction \<Rightarrow> int \<Rightarrow> Resources \<Rightarrow> Resources" where
  "addGold f amount r = r\<lparr>gold := (gold r)(f := gold r f + amount)\<rparr>"

subsection \<open>Step 3: unit logic\<close>

text \<open>
  The movement branch and the final \<^verbatim>\<open>return unit\<close>. \<^verbatim>\<open>remainingPath.shift() || null\<close>
  removes the head of the path even when the head is the empty string.
\<close>

definition moveUnit :: "Unit \<Rightarrow> Unit" where
  "moveUnit unit =
     (case destinationId unit of
        None \<Rightarrow> unit
      | Some nextNodeId \<Rightarrow>
          if isMoving unit \<and> nextNodeId \<noteq> [] then
            (let newProgress = progress unit + MOVEMENT_SPEED in
             if newProgress \<ge> 100 then
               (let remainingPath = path unit;
                    nextTarget = (case remainingPath of [] \<Rightarrow> None | h # _ \<Rightarrow> orElse (Some h) None)
                in unit\<lparr>progress := 0, isMoving := truthy nextTarget, locationId := nextNodeId,
                         destinationId := nextTarget, path := tl remainingPath\<rparr>)
             else unit\<lparr>progress := newProgress\<rparr>)
          else unit)"

text \<open>
  The callback of \<^verbatim>\<open>newState.units.map\<close>: training, then the winter retreat, then movement.
  \<^verbatim>\<open>currentLoc.connections\<close> throws when the unit's location is not a node.
\<close>

definition advanceUnit :: "NodeMap \<Rightarrow> bool \<Rightarrow> Unit \<Rightarrow> Unit option" where
  "advanceUnit ns winter unit =
     (if isTraining unit then
        (if trainingProgress unit \<ge> 100
         then Some (unit\<lparr>isTraining := False, trainingProgress := 100\<rparr>)
         else Some (unit\<lparr>trainingProgress := trainingProgress unit + TRAINING_SPEED\<rparr>))
      else if winter \<and> locationId unit \<noteq> originId unit \<and> \<not> isMoving unit \<and> typeU unit \<noteq> FLEET then
        (case map_of ns (locationId unit) of
           None \<Rightarrow> None
         | Some currentLoc \<Rightarrow>
             if originId unit \<in> set (connections currentLoc)
             then Some (unit\<lparr>destinationId := Some (originId unit), path := [],
                              isMoving := True, progress := 0\<rparr>)
             else Some (moveUnit unit))
      else Some (moveUnit unit))"

text \<open>\<^verbatim>\<open>Array.prototype.map\<close> with a callback that may throw.\<close>

fun mapThrow :: "('a \<Rightarrow> 'b option) \<Rightarrow> 'a list \<Rightarrow> 'b list option" where
  "mapThrow f [] = Some []"
| "mapThrow f (x # xs) =
     (case f x of
        None \<Rightarrow> None
      | Some y \<Rightarrow> (case mapThrow f xs of None \<Rightarrow> None | Some ys \<Rightarrow> Some (y # ys)))"

subsection \<open>Step 4: arrival and combat\<close>

text \<open>
  The state of the \<^verbatim>\<open>for\<close> loop: \<^verbatim>\<open>newState\<close>, \<^verbatim>\<open>deadUnitIds\<close>, \<^verbatim>\<open>events\<close> and the number of
  random draws made.
\<close>

record Tick =
  st :: App
  deadUnitIds :: "string list"
  events :: "string list"
  draws :: nat

definition isEnemyOf :: "string list \<Rightarrow> Unit \<Rightarrow> Unit \<Rightarrow> bool" where
  "isEnemyOf dead unit u \<longleftrightarrow>
     locationId u = locationId unit \<and> ownerU u \<noteq> ownerU unit \<and> idU u \<notin> set dead \<and> \<not> isTraining u"

text \<open>
  The combat branch for the unit at index \<open>i\<close> and its first enemy, at index \<open>j\<close>. The winner's
  strength is written into the winner object by \<^verbatim>\<open>handleCombat\<close>, then into
  \<^verbatim>\<open>newState.units[winnerIndex]\<close>, the first unit with the winner's id.
\<close>

definition fight :: "Env \<Rightarrow> nat \<Rightarrow> nat \<Rightarrow> Tick \<Rightarrow> Tick option" where
  "fight env i j t =
     (let s = st t; unit = units s ! i; enemy = units s ! j in
      case handleCombat env (draws t) unit enemy (nodes s) of
        None \<Rightarrow> None
      | Some (firstWon, winnerU, loser, flavor) \<Rightarrow>
          (let events' = (if playerFaction s = SPECTATOR \<or> ownerU winnerU = playerFaction s
                             \<or> ownerU loser = playerFaction s
                          then events t @ [flavor] else events t);
               us1 = (units s)[(if firstWon then i else j) := winnerU];
               us2 = (case findIndex (\<lambda>u. idU u = idU winnerU) us1 of
                        None \<Rightarrow> us1
                      | Some winnerIndex \<Rightarrow>
                          us1[winnerIndex := (us1 ! winnerIndex)\<lparr>strength := strength winnerU\<rparr>])
           in Some (t\<lparr>st := s\<lparr>units := us2\<rparr>, deadUnitIds := deadUnitIds t @ [idU loser],
                      events := events', draws := draws t + 2\<rparr>)))"

text \<open>The conquest branch; \<^verbatim>\<open>loc.owner\<close> throws when the unit's location is not a node.\<close>

definition conquer :: "nat \<Rightarrow> Tick \<Rightarrow> Tick option" where
  "conquer i t =
     (let s = st t; unit = units s ! i in
      case map_of (nodes s) (locationId unit) of
        None \<Rightarrow> None
      | Some loc \<Rightarrow>
          if ownerN loc \<noteq> ownerU unit then
            (let isLandConquest = (typeN loc \<noteq> SEA \<and> typeU unit \<noteq> FLEET);
                 isSeaConquest = (typeN loc = SEA \<and> typeU unit = FLEET)
             in if isLandConquest \<or> isSeaConquest then
                  (let s1 = s\<lparr>nodes := AList.update (idN loc)
                                 (loc\<lparr>ownerN := ownerU unit, fortificationLevel := 0\<rparr>) (nodes s)\<rparr>;
                       ev = events t @ [factionStr (ownerU unit) @ '' has seized control of ''
                                          @ nameN loc @ ''!''];
                       s2 = (if idN loc = ''rome'' \<and> ownerU unit = CARTHAGE
                             then s1\<lparr>gameOver := True, winner := Some CARTHAGE\<rparr> else s1);
                       s3 = (if idN loc = ''carthage'' \<and> ownerU unit = ROME
                             then s2\<lparr>gameOver := True, winner := Some ROME\<rparr> else s2)
                   in Some (t\<lparr>st := s3, events := ev\<rparr>))
                else Some t)
          else Some t)"

text \<open>One iteration of the loop, for index \<open>i < length (units (st t))\<close>.\<close>

definition arrival :: "Env \<Rightarrow> nat \<Rightarrow> Tick \<Rightarrow> Tick option" where
  "arrival env i t =
     (let unit = units (st t) ! i in
      if idU unit \<in> set (deadUnitIds t) then Some t
      else if isMoving unit \<or> isTraining unit then Some t
      else (case findIndex (isEnemyOf (deadUnitIds t) unit) (units (st t)) of
              Some j \<Rightarrow> fight env i j t
            | None \<Rightarrow> conquer i t))"

fun arrivals :: "Env \<Rightarrow> nat list \<Rightarrow> Tick \<Rightarrow> Tick option" where
  "arrivals env [] t = Some t"
| "arrivals env (i # is) t =
     (case arrival env i t of None \<Rightarrow> None | Some t' \<Rightarrow> arrivals env is t')"

definition purge :: "Tick \<Rightarrow> Tick" where
  "purge t = t\<lparr>st := (st t)\<lparr>units := filter (\<lambda>u. idU u \<notin> set (deadUnitIds t)) (units (st t))\<rparr>\<rparr>"

section \<open>The opponent policy (processAI)\<close>

text \<open>
  A recruitment intent is \<^verbatim>\<open>{nodeId, type}\<close>, a move intent \<^verbatim>\<open>{unitId, targetId}\<close>; both are
  pairs. The target of a move is an \<open>option\<close> because an array read can give \<^verbatim>\<open>undefined\<close>.
\<close>

definition aiFactions :: "Faction \<Rightarrow> Faction list" where
  "aiFactions pf =
     (if pf = SPECTATOR then [ROME, CARTHAGE] else [if pf = ROME then CARTHAGE else ROME])"

text \<open>
  Part 1, recruitment. \<^verbatim>\<open>Math.random()\<close> is only called when the chosen node is a port.
\<close>

definition aiRecruit :: "Env \<Rightarrow> App \<Rightarrow> Faction \<Rightarrow> nat \<Rightarrow> (string \<times> UnitType) list \<times> nat" where
  "aiRecruit env currentState aiFaction d =
     (let aiGold = gold (resources currentState) aiFaction;
          ownedNodes = filter (\<lambda>n. ownerN n = aiFaction) (map snd (nodes currentState));
          unitCost = UNIT_COST_ARMY
      in if aiGold > goldC unitCost \<and> \<not> isWinter currentState then
           (let validNodes = filter (\<lambda>n. localManpower n \<ge> manpowerC unitCost) ownedNodes in
            case find (\<lambda>n. length (filter (\<lambda>u. locationId u = idN n) (units currentState)) < 2)
                   validNodes of
              None \<Rightarrow> ([], d)
            | Some targetNode \<Rightarrow>
                if typeN targetNode = PORT then
                  (if random env d > 0.7 then ([(idN targetNode, FLEET)], d + 1)
                   else if typeN targetNode \<noteq> SEA then ([(idN targetNode, MERCENARY)], d + 1)
                   else ([], d + 1))
                else if typeN targetNode \<noteq> SEA then ([(idN targetNode, MERCENARY)], d)
                else ([], d))
         else ([], d))"

text \<open>
  The filter that computes \<^verbatim>\<open>validNeighbors\<close>; \<^verbatim>\<open>target.type\<close> throws when a connection
  is not a node.
\<close>

fun validNeighbors :: "App \<Rightarrow> Faction \<Rightarrow> Unit \<Rightarrow> string list \<Rightarrow> string list option" where
  "validNeighbors currentState aiFaction unit [] = Some []"
| "validNeighbors currentState aiFaction unit (nid # rest) =
     (case map_of (nodes currentState) nid of
        None \<Rightarrow> None
      | Some target \<Rightarrow>
          (let keep = (if typeU unit = FLEET then typeN target = SEA \<or> typeN target = PORT
                       else if typeN target = SEA then hasFleet (units currentState) aiFaction nid
                       else True)
           in case validNeighbors currentState aiFaction unit rest of
                None \<Rightarrow> None
              | Some vs \<Rightarrow> Some (if keep then nid # vs else vs)))"

text \<open>
  The owner of the node \<open>nid\<close>, read in the two \<^verbatim>\<open>find\<close> callbacks. They only run on members
  of \<^verbatim>\<open>validNeighbors\<close>, which are nodes, so the \<open>None\<close> branch is not reached there.
\<close>

definition ownerAt :: "NodeMap \<Rightarrow> string \<Rightarrow> Faction option" where
  "ownerAt ns nid = map_option ownerN (map_of ns nid)"

text \<open>
  \<^verbatim>\<open>validNeighbors[Math.floor(r * validNeighbors.length)]\<close>, the product rounded to a double; an
  index outside the array reads \<^verbatim>\<open>undefined\<close>.
\<close>

definition pick :: "real \<Rightarrow> string list \<Rightarrow> string option" where
  "pick r vs =
     (let idx = \<lfloor>fmul r (real (length vs))\<rfloor>
      in if 0 \<le> idx \<and> nat idx < length vs then Some (vs ! nat idx) else None)"

text \<open>
  The body of \<^verbatim>\<open>aiUnits.forEach\<close>. The target is \<^verbatim>\<open>enemy || neutral || validNeighbors[...]\<close>,
  which draws only when there is neither an enemy nor a neutral neighbour; then
  \<^verbatim>\<open>if (Math.random() > 0.6) moves.push(...)\<close>.
\<close>

definition aiMoveUnit ::
  "Env \<Rightarrow> App \<Rightarrow> Faction \<Rightarrow> Unit \<Rightarrow> nat \<Rightarrow> ((string \<times> string option) list \<times> nat) option" where
  "aiMoveUnit env currentState aiFaction unit d =
     (case map_of (nodes currentState) (locationId unit) of
        None \<Rightarrow> None
      | Some currentNode \<Rightarrow>
          (case validNeighbors currentState aiFaction unit (connections currentNode) of
             None \<Rightarrow> None
           | Some vs \<Rightarrow>
               if length vs > 0 then
                 (let enemy = find (\<lambda>nid. ownerAt (nodes currentState) nid \<noteq> Some aiFaction
                                       \<and> ownerAt (nodes currentState) nid \<noteq> Some NEUTRAL) vs;
                      neutral = find (\<lambda>nid. ownerAt (nodes currentState) nid = Some NEUTRAL) vs;
                      (target, d1) = (if truthy enemy then (enemy, d)
                                      else if truthy neutral then (neutral, d)
                                      else (pick (random env d) vs, d + 1))
                  in if random env d1 > 0.6 then Some ([(idU unit, target)], d1 + 1)
                     else Some ([], d1 + 1))
               else Some ([], d)))"

fun aiMoveUnits ::
  "Env \<Rightarrow> App \<Rightarrow> Faction \<Rightarrow> Unit list \<Rightarrow> (string \<times> string option) list \<times> nat \<Rightarrow>
   ((string \<times> string option) list \<times> nat) option" where
  "aiMoveUnits env currentState aiFaction [] acc = Some acc"
| "aiMoveUnits env currentState aiFaction (unit # rest) (moves, d) =
     (case aiMoveUnit env currentState aiFaction unit d of
        None \<Rightarrow> None
      | Some (ms, d') \<Rightarrow> aiMoveUnits env currentState aiFaction rest (moves @ ms, d'))"

definition aiTurn ::
  "Env \<Rightarrow> App \<Rightarrow> Faction \<Rightarrow>
   (string \<times> UnitType) list \<times> (string \<times> string option) list \<times> nat \<Rightarrow>
   ((string \<times> UnitType) list \<times> (string \<times> string option) list \<times> nat) option" where
  "aiTurn env currentState f acc =
     (case acc of (recruitments, moves, d) \<Rightarrow>
        (case aiRecruit env currentState f d of (rs, d1) \<Rightarrow>
           if \<not> isWinter currentState then
             (let aiUnits = filter (\<lambda>u. ownerU u = f \<and> \<not> isMoving u \<and> \<not> isTraining u
                                        \<and> destinationId u = None) (units currentState)
              in case aiMoveUnits env currentState f aiUnits (moves, d1) of
                   None \<Rightarrow> None
                 | Some (moves', d2) \<Rightarrow> Some (recruitments @ rs, moves', d2))
           else Some (recruitments @ rs, moves, d1)))"

fun aiFactionsLoop ::
  "Env \<Rightarrow> App \<Rightarrow> Faction list \<Rightarrow>
   (string \<times> UnitType) list \<times> (string \<times> string option) list \<times> nat \<Rightarrow>
   ((string \<times> UnitType) list \<times> (string \<times> string option) list \<times> nat) option" where
  "aiFactionsLoop env currentState [] acc = Some acc"
| "aiFactionsLoop env currentState (f # fs) acc =
     (case aiTurn env currentState f acc of
        None \<Rightarrow> None
      | Some acc' \<Rightarrow> aiFactionsLoop env currentState fs acc')"

definition processAI ::
  "Env \<Rightarrow> nat \<Rightarrow> App \<Rightarrow> ((string \<times> UnitType) list \<times> (string \<times> string option) list \<times> nat) option" where
  "processAI env d currentState =
     aiFactionsLoop env currentState (aiFactions (playerFaction currentState)) ([], [], d)"

subsection \<open>Step 5 of the tick: applying the AI's intents\<close>

definition newUnit :: "string \<Rightarrow> Faction \<Rightarrow> UnitType \<Rightarrow> string \<Rightarrow> Unit" where
  "newUnit uid faction t nodeId =
     \<lparr>idU = uid, ownerU = faction, typeU = t, strength = UNIT_STRENGTH_ARMY,
      maxStrength = UNIT_STRENGTH_ARMY, locationId = nodeId, destinationId = None, path = [],
      originId = nodeId, progress = 0, isMoving = False, isTraining = True, trainingProgress = 0\<rparr>"

definition unitCost :: "UnitType \<Rightarrow> Cost" where
  "unitCost t = (if t = FLEET then UNIT_COST_FLEET else UNIT_COST_ARMY)"

text \<open>
  One \<^verbatim>\<open>aiActions.recruitments.forEach\<close> callback; the second component counts the calls of
  \<^verbatim>\<open>uuidv4\<close>. \<^verbatim>\<open>node.localManpower -= cost.manpower\<close> writes into the node object stored under
  \<^verbatim>\<open>rec.nodeId\<close>.
\<close>

definition applyRecruitment :: "Env \<Rightarrow> string \<times> UnitType \<Rightarrow> App \<times> nat \<Rightarrow> (App \<times> nat) option" where
  "applyRecruitment env rec acc =
     (case acc of (s, k) \<Rightarrow>
      case rec of (nodeId, t) \<Rightarrow>
        (case map_of (nodes s) nodeId of
           None \<Rightarrow> None
         | Some node \<Rightarrow>
             (let faction = ownerN node; cost = unitCost t in
              if gold (resources s) faction \<ge> goldC cost \<and> localManpower node \<ge> manpowerC cost then
                Some (s\<lparr>resources := addGold faction (- goldC cost) (resources s),
                        nodes := AList.update nodeId
                                   (node\<lparr>localManpower := localManpower node - manpowerC cost\<rparr>) (nodes s),
                        units := units s @ [newUnit (uuidv4 env k) faction t nodeId]\<rparr>, k + 1)
              else Some (s, k))))"

fun applyRecruitments :: "Env \<Rightarrow> (string \<times> UnitType) list \<Rightarrow> App \<times> nat \<Rightarrow> (App \<times> nat) option" where
  "applyRecruitments env [] acc = Some acc"
| "applyRecruitments env (rec # rest) acc =
     (case applyRecruitment env rec acc of
        None \<Rightarrow> None
      | Some acc' \<Rightarrow> applyRecruitments env rest acc')"

definition applyMove :: "string \<times> string option \<Rightarrow> App \<Rightarrow> App" where
  "applyMove mv s =
     (case mv of (unitId, targetId) \<Rightarrow>
        (case findIndex (\<lambda>u. idU u = unitId) (units s) of
           None \<Rightarrow> s
         | Some unitIndex \<Rightarrow>
             s\<lparr>units := (units s)[unitIndex :=
                  (units s ! unitIndex)\<lparr>destinationId := targetId, isMoving := True\<rparr>]\<rparr>))"

fun applyMoves :: "(string \<times> string option) list \<Rightarrow> App \<Rightarrow> App" where
  "applyMoves [] s = s"
| "applyMoves (mv # rest) s = applyMoves rest (applyMove mv s)"

definition aiActions :: "Env \<Rightarrow> Tick \<Rightarrow> Tick option" where
  "aiActions env t =
     (if day (st t) smod 20 = 0 \<and> \<not> gameOver (st t) then
        (case processAI env (draws t) (st t) of
           None \<Rightarrow> None
         | Some (recruitments, moves, d) \<Rightarrow>
             (case applyRecruitments env recruitments (st t, 0) of
                None \<Rightarrow> None
              | Some (s1, k) \<Rightarrow> Some (t\<lparr>st := applyMoves moves s1, draws := d\<rparr>)))
      else Some t)"

subsection \<open>The whole tick\<close>

text \<open>Step 1 and step 2, up to the unit logic: these never throw.\<close>

definition seasonEvents :: "bool \<Rightarrow> bool \<Rightarrow> string list" where
  "seasonEvents wasWinter nowWinter =
     (if wasWinter \<and> \<not> nowWinter then [''Spring has arrived. The passes are clear.'']
      else if \<not> wasWinter \<and> nowWinter then [''Winter has fallen. Armies retreat to winter quarters.'']
      else [])"

definition economy :: "App \<Rightarrow> Tick" where
  "economy current =
     (let day' = day current + 1;
          doy = dayOfYear day';
          wasWinter = isWinter current;
          nowWinter = winterOn doy;
          isAutumn = (doy = AUTUMN_START_DAY);
          ev1 = seasonEvents wasWinter nowWinter;
          ns = regenNodes (nodes current);
          r1 = addGold CARTHAGE (tradeIncome CARTHAGE ns) (addGold ROME (tradeIncome ROME ns) (resources current));
          r2 = (if isAutumn
                then addGold CARTHAGE (annualIncome CARTHAGE ns) (addGold ROME (annualIncome ROME ns) r1)
                else r1);
          ev2 = (if isAutumn then ev1 @ [''Taxes collected and Harvest gathered.''] else ev1)
      in \<lparr>st = current\<lparr>day := day', isWinter := nowWinter, nodes := ns, resources := r2\<rparr>,
          deadUnitIds = [], events = ev2, draws = 0\<rparr>)"

definition finish :: "Tick \<Rightarrow> App" where
  "finish t = (if length (events t) > 0 then (st t)\<lparr>logG := logG (st t) @ events t\<rparr> else st t)"

text \<open>
  \<^verbatim>\<open>updateGame\<close>: nothing happens before the game has started, while it is paused and once it is
  over. Otherwise the steps run in order and \<^verbatim>\<open>setGameState(newState)\<close> commits the result.
  The tick is taken as one atomic transition (the \<^verbatim>\<open>await\<close> of the battle text is not a point
  where other handlers are interleaved).
\<close>

definition updateGame :: "Env \<Rightarrow> App \<Rightarrow> App option" where
  "updateGame env current =
     (if \<not> hasStarted current then Some current
      else if gameSpeed current = 0 \<or> gameOver current then Some current
      else
        (let t0 = economy current in
         case mapThrow (advanceUnit (nodes (st t0)) (isWinter (st t0))) (units (st t0)) of
           None \<Rightarrow> None
         | Some us \<Rightarrow>
             (let t1 = t0\<lparr>st := (st t0)\<lparr>units := us\<rparr>\<rparr> in
              case arrivals env [0..<length us] t1 of
                None \<Rightarrow> None
              | Some t2 \<Rightarrow>
                  (case aiActions env (purge t2) of
                     None \<Rightarrow> None
                   | Some t3 \<Rightarrow> Some (finish t3)))))"

section \<open>Command handlers\<close>

definition addLog :: "string \<Rightarrow> App \<Rightarrow> App" where
  "addLog msg s = s\<lparr>logG := logG s @ [msg]\<rparr>"

definition startGame :: "Faction \<Rightarrow> App \<Rightarrow> App" where
  "startGame faction s =
     s\<lparr>playerFaction := faction,
       logG := (if faction = SPECTATOR then [''Observing the conflict from the heavens.'']
                else [''You have taken command of '' @ factionStr faction
                        @ ''. Conquer the Mediterranean!'']),
       hasStarted := True\<rparr>"

text \<open>
  \<^verbatim>\<open>handleNodeClick\<close>. With targeting mode on and a node selected it is the move command:
  the ready units of the player at the selected node all get the first step of the path as
  destination and the rest as queue.
\<close>

definition handleNodeClick :: "string \<Rightarrow> App \<Rightarrow> App option" where
  "handleNodeClick nodeId s =
     (if gameOver s \<or> \<not> hasStarted s \<or> playerFaction s = SPECTATOR then Some s
      else if isTargetingMode s \<and> truthy (selectedNodeId s) then
        (case selectedNodeId s of
           None \<Rightarrow> Some s
         | Some startNodeId \<Rightarrow>
             (case findPath startNodeId nodeId (playerFaction s) s of
                None \<Rightarrow> None
              | Some (Path (firstStep # rest)) \<Rightarrow>
                  (let readyUnits = filter (\<lambda>u. locationId u = startNodeId \<and> ownerU u = playerFaction s
                                               \<and> \<not> isMoving u \<and> \<not> isTraining u) (units s)
                   in if length readyUnits > 0 then
                        (let newUnits = map (\<lambda>u. if list_ex (\<lambda>r. idU r = idU u) readyUnits
                                                  then u\<lparr>destinationId := Some firstStep, path := rest,
                                                         isMoving := True\<rparr>
                                                  else u) (units s)
                         in case map_of (nodes s) nodeId of
                              None \<Rightarrow> None
                            | Some target \<Rightarrow>
                                Some (addLog (''Moving forces to '' @ nameN target @ ''.'')
                                       (s\<lparr>units := newUnits, selectedNodeId := None,
                                          isTargetingMode := False\<rparr>)))
                      else Some (s\<lparr>isTargetingMode := False\<rparr>))
              | Some _ \<Rightarrow> Some ((addLog ''Invalid route.'' s)\<lparr>isTargetingMode := False\<rparr>)))
      else Some (s\<lparr>selectedNodeId := (if Some nodeId = selectedNodeId s then None else Some nodeId),
                   isTargetingMode := False\<rparr>))"

text \<open>
  \<^verbatim>\<open>handleRecruit(type)\<close>; \<open>uid\<close> is the result of \<^verbatim>\<open>uuidv4()\<close>. The manpower is taken from
  \<^verbatim>\<open>newNodes[node.id]\<close>, the gold from the player's faction. In
  \<^verbatim>\<open>playerGold >= cost.gold && node.localManpower >= cost.manpower\<close> the node is only read when
  the gold suffices; \<^verbatim>\<open>handleFortify\<close> has the same shape.
\<close>

definition setGold :: "Faction \<Rightarrow> int \<Rightarrow> Resources \<Rightarrow> Resources" where
  "setGold f amount r = r\<lparr>gold := (gold r)(f := amount)\<rparr>"

definition handleRecruit :: "string \<Rightarrow> UnitType \<Rightarrow> App \<Rightarrow> App option" where
  "handleRecruit uid t s =
     (if \<not> truthy (selectedNodeId s) \<or> gameOver s then Some s
      else
        (case selectedNodeId s of
           None \<Rightarrow> Some s
         | Some sel \<Rightarrow>
             (let cost = unitCost t;
                  playerGold = gold (resources s) (playerFaction s)
              in if playerGold \<ge> goldC cost then
                   (case map_of (nodes s) sel of
                      None \<Rightarrow> None
                    | Some node \<Rightarrow>
                        if localManpower node \<ge> manpowerC cost then
                          (case map_of (nodes s) (idN node) of
                             None \<Rightarrow> None
                           | Some n \<Rightarrow>
                               Some (s\<lparr>nodes := AList.update (idN node)
                                                  (n\<lparr>localManpower := localManpower n - manpowerC cost\<rparr>)
                                                  (nodes s),
                                       resources := setGold (playerFaction s) (playerGold - goldC cost)
                                                      (resources s),
                                       units := units s @ [newUnit uid (playerFaction s) t (idN node)]\<rparr>))
                        else Some s)
                 else Some s)))"

definition handleFortify :: "App \<Rightarrow> App option" where
  "handleFortify s =
     (if \<not> truthy (selectedNodeId s) then Some s
      else
        (case selectedNodeId s of
           None \<Rightarrow> Some s
         | Some sel \<Rightarrow>
             (let playerGold = gold (resources s) (playerFaction s) in
              if playerGold \<ge> FORTIFY_COST then
                (case map_of (nodes s) sel of
                   None \<Rightarrow> None
                 | Some node \<Rightarrow>
                     if fortificationLevel node < MAX_FORTIFICATION then
                       (case map_of (nodes s) (idN node) of
                          None \<Rightarrow> None
                        | Some n \<Rightarrow>
                            Some (s\<lparr>nodes := AList.update (idN node)
                                               (n\<lparr>fortificationLevel := fortificationLevel n + 1\<rparr>)
                                               (nodes s),
                                    resources := setGold (playerFaction s) (playerGold - FORTIFY_COST)
                                                   (resources s)\<rparr>))
                     else Some s)
              else Some s)))"

text \<open>
  \<^verbatim>\<open>currentNode.connections.some(...)\<close> of \<^verbatim>\<open>handleRally\<close>: it stops at the first enemy
  neighbour and throws on a connection that is not a node.
\<close>

fun hasEnemyNeighbor :: "NodeMap \<Rightarrow> Faction \<Rightarrow> string list \<Rightarrow> bool option" where
  "hasEnemyNeighbor ns faction [] = Some False"
| "hasEnemyNeighbor ns faction (connId # rest) =
     (case map_of ns connId of
        None \<Rightarrow> None
      | Some neighbor \<Rightarrow>
          if ownerN neighbor \<noteq> faction \<and> ownerN neighbor \<noteq> NEUTRAL then Some True
          else hasEnemyNeighbor ns faction rest)"

definition rallyUnit :: "App \<Rightarrow> string \<Rightarrow> Faction \<Rightarrow> Unit \<Rightarrow> Unit option" where
  "rallyUnit prev targetId faction u =
     (if ownerU u \<noteq> faction \<or> isMoving u \<or> isTraining u \<or> locationId u = targetId then Some u
      else if typeU u = FLEET then Some u
      else
        (case map_of (nodes prev) (locationId u) of
           None \<Rightarrow> None
         | Some currentNode \<Rightarrow>
             (case hasEnemyNeighbor (nodes prev) faction (connections currentNode) of
                None \<Rightarrow> None
              | Some True \<Rightarrow> Some u
              | Some False \<Rightarrow>
                  (case findPath (locationId u) targetId faction prev of
                     None \<Rightarrow> None
                   | Some (Path (firstStep # rest)) \<Rightarrow>
                       Some (u\<lparr>destinationId := Some firstStep, path := rest, isMoving := True\<rparr>)
                   | Some _ \<Rightarrow> Some u))))"

definition handleRally :: "App \<Rightarrow> App option" where
  "handleRally s =
     (if \<not> truthy (selectedNodeId s) then Some s
      else
        (case selectedNodeId s of
           None \<Rightarrow> Some s
         | Some targetId \<Rightarrow>
             (case mapThrow (rallyUnit s targetId (playerFaction s)) (units s) of
                None \<Rightarrow> None
              | Some newUnits \<Rightarrow> Some (addLog ''Rallying reserves!'' (s\<lparr>units := newUnits\<rparr>)))))"

definition haltUnit :: "Faction \<Rightarrow> string \<Rightarrow> Unit \<Rightarrow> Unit" where
  "haltUnit faction targetId u =
     (if ownerU u \<noteq> faction \<or> \<not> isMoving u then u
      else if destinationId u = Some targetId \<or> targetId \<in> set (path u)
      then u\<lparr>isMoving := False, destinationId := None, path := [], progress := 0\<rparr>
      else u)"

definition handleHalt :: "App \<Rightarrow> App" where
  "handleHalt s =
     (if \<not> truthy (selectedNodeId s) then s
      else
        (case selectedNodeId s of
           None \<Rightarrow> s
         | Some targetId \<Rightarrow>
             addLog ''Incoming columns halted.''
               (s\<lparr>units := map (haltUnit (playerFaction s) targetId) (units s)\<rparr>)))"

definition enterMoveMode :: "App \<Rightarrow> App" where
  "enterMoveMode s =
     (if isWinter s then addLog ''Cannot launch campaigns in Winter!'' s
      else s\<lparr>isTargetingMode := True\<rparr>)"

definition pauseToggle :: "App \<Rightarrow> App" where
  "pauseToggle s = s\<lparr>gameSpeed := (if gameSpeed s = 0 then 1 else 0)\<rparr>"

section \<open>The recruit buttons (GameUI)\<close>

text \<open>
  The action bar is rendered when a node is selected, the player owns it, it is not winter and
  the player is not the spectator. The army button is rendered on a city or a port, the fleet
  button on a port; each is disabled while the treasury or the local manpower is short. A click
  on a button that is not rendered, or is disabled, does not reach \<^verbatim>\<open>onRecruit\<close>.
\<close>

definition actionBar :: "App \<Rightarrow> GameNode option" where
  "actionBar s =
     (case (if truthy (selectedNodeId s) then selectedNodeId s else None) of
        None \<Rightarrow> None
      | Some sel \<Rightarrow>
          (case map_of (nodes s) sel of
             None \<Rightarrow> None
           | Some selectedNode \<Rightarrow>
               if ownerN selectedNode = playerFaction s \<and> \<not> isWinter s \<and> playerFaction s \<noteq> SPECTATOR
               then Some selectedNode else None))"

definition canAfford :: "App \<Rightarrow> GameNode \<Rightarrow> Cost \<Rightarrow> bool" where
  "canAfford s selectedNode cost \<longleftrightarrow>
     \<not> (gold (resources s) (playerFaction s) < goldC cost \<or> localManpower selectedNode < manpowerC cost)"

definition clickRecruitArmy :: "string \<Rightarrow> App \<Rightarrow> App option" where
  "clickRecruitArmy uid s =
     (case actionBar s of
        None \<Rightarrow> Some s
      | Some selectedNode \<Rightarrow>
          if (typeN selectedNode = CITY \<or> typeN selectedNode = PORT)
             \<and> canAfford s selectedNode UNIT_COST_ARMY
          then handleRecruit uid (if playerFaction s = ROME then LEGION else MERCENARY) s
          else Some s)"

definition clickRecruitFleet :: "string \<Rightarrow> App \<Rightarrow> App option" where
  "clickRecruitFleet uid s =
     (case actionBar s of
        None \<Rightarrow> Some s
      | Some selectedNode \<Rightarrow>
          if typeN selectedNode = PORT \<and> canAfford s selectedNode UNIT_COST_FLEET
          then handleRecruit uid FLEET s
          else Some s)"

section \<open>Runs of the game\<close>

text \<open>
  A command is one call of a handler of \<^verbatim>\<open>App\<close>, with any argument. The states of the game
  are those reached from the initial state by ticks and commands that complete.
\<close>

datatype Command =
    StartGame Faction
  | NodeClick string
  | Recruit string UnitType
  | Fortify
  | Rally
  | Halt
  | EnterMoveMode
  | PauseToggle
  | AddLog string
  | SetMapImage string
  | SetStartScreenImage string

fun command :: "Command \<Rightarrow> App \<Rightarrow> App option" where
  "command (StartGame f) s = Some (startGame f s)"
| "command (NodeClick k) s = handleNodeClick k s"
| "command (Recruit uid t) s = handleRecruit uid t s"
| "command Fortify s = handleFortify s"
| "command Rally s = handleRally s"
| "command Halt s = Some (handleHalt s)"
| "command EnterMoveMode s = Some (enterMoveMode s)"
| "command PauseToggle s = Some (pauseToggle s)"
| "command (AddLog msg) s = Some (addLog msg s)"
| "command (SetMapImage img) s = Some (s\<lparr>mapImage := Some img\<rparr>)"
| "command (SetStartScreenImage img) s = Some (s\<lparr>startScreenImage := Some img\<rparr>)"

inductive reachable :: "App \<Rightarrow> bool" where
  init: "reachable initialApp"
| tick: "reachable s \<Longrightarrow> validEnv env \<Longrightarrow> updateGame env s = Some s' \<Longrightarrow> reachable s'"
| cmd: "reachable s \<Longrightarrow> command c s = Some s' \<Longrightarrow> reachable s'"

section \<open>Notions used in the statements\<close>

text \<open>
  Definitions that only the statements and proofs below use; none of them is part of the
  program. First, the fields of the state that neither the arrival loop nor the AI step writes.
\<close>

definition sameMeta :: "App \<Rightarrow> App \<Rightarrow> bool" where
  "sameMeta s s' \<longleftrightarrow>
     day s' = day s \<and> isWinter s' = isWinter s \<and> playerFaction s' = playerFaction s \<and>
     hasStarted s' = hasStarted s \<and> gameSpeed s' = gameSpeed s \<and>
     selectedNodeId s' = selectedNodeId s \<and> isTargetingMode s' = isTargetingMode s \<and>
     logG s' = logG s \<and> mapImage s' = mapImage s \<and> startScreenImage s' = startScreenImage s"

text \<open>The loop state at the start of step 4: the state after step 2, with the advanced units.\<close>

definition marched :: "App \<Rightarrow> Unit list \<Rightarrow> Tick" where
  "marched s us = (economy s)\<lparr>st := (st (economy s))\<lparr>units := us\<rparr>\<rparr>"

text \<open>
  A node with its three mutable fields blanked. Two node maps with the same \<open>statics\<close> have the
  same keys in the same order and agree on every field that no operation writes. \<open>idsOK\<close>: every
  node is stored under its own id.
\<close>

definition nodeStatic :: "GameNode \<Rightarrow> GameNode" where
  "nodeStatic n = n\<lparr>ownerN := NEUTRAL, localManpower := 0, fortificationLevel := 0\<rparr>"

definition statics :: "NodeMap \<Rightarrow> NodeMap" where
  "statics ns = map (\<lambda>(k, n). (k, nodeStatic n)) ns"

definition idsOK :: "NodeMap \<Rightarrow> bool" where
  "idsOK ns \<longleftrightarrow> (\<forall>(k, n) \<in> set ns. idN n = k)"

text \<open>No faction is in debt; no node has a negative income.\<close>

definition goldOK :: "Resources \<Rightarrow> bool" where
  "goldOK r \<longleftrightarrow> (\<forall>f. 0 \<le> gold r f)"

definition incomesOK :: "NodeMap \<Rightarrow> bool" where
  "incomesOK ns \<longleftrightarrow> (\<forall>(k, n) \<in> set ns. 0 \<le> income n)"

text \<open>Every other command leaves the nodes, the resources, the day and the end of the game alone.\<close>

definition sameWorld :: "App \<Rightarrow> App \<Rightarrow> bool" where
  "sameWorld s s' \<longleftrightarrow>
     nodes s' = nodes s \<and> resources s' = resources s \<and> day s' = day s \<and>
     isWinter s' = isWinter s \<and> gameOver s' = gameOver s \<and> winner s' = winner s"

text \<open>What holds in every state of a run.\<close>

definition worldInv :: "App \<Rightarrow> bool" where
  "worldInv s \<longleftrightarrow>
     statics (nodes s) = statics INITIAL_NODES \<and> goldOK (resources s) \<and> 1 \<le> day s"

text \<open>A run of commands, each on the state the one before returned.\<close>

fun run :: "Command list \<Rightarrow> App \<Rightarrow> App option" where
  "run [] s = Some s"
| "run (c # cs) s = (case command c s of None \<Rightarrow> None | Some s' \<Rightarrow> run cs s')"

text \<open>The node under the cursor, when the selected id names one.\<close>

definition selectedNode :: "App \<Rightarrow> GameNode option" where
  "selectedNode s = (case selectedNodeId s of None \<Rightarrow> None | Some sel \<Rightarrow> map_of (nodes s) sel)"




text \<open>
  The numbers that a combat reads, as they are in the game: a strength is a double between 10
  and 100, and a fortification level lies between 0 and \<open>MAX_FORTIFICATION\<close>.
\<close>

definition fit :: "real \<Rightarrow> bool" where
  "fit x \<longleftrightarrow> isDouble x \<and> 10 \<le> x \<and> x \<le> 100"

definition walls :: "NodeMap \<Rightarrow> bool" where
  "walls ns \<longleftrightarrow>
     (\<forall>(k, n) \<in> set ns. 0 \<le> fortificationLevel n \<and> fortificationLevel n \<le> MAX_FORTIFICATION)"

definition combatInv :: "App \<Rightarrow> bool" where
  "combatInv s \<longleftrightarrow> walls (nodes s) \<and> (\<forall>u \<in> set (units s). fit (strength u))"

text \<open>The units after a fight: the winner's object, then the first unit with the winner's id.\<close>

definition strike :: "Unit \<Rightarrow> real \<Rightarrow> Unit" where
  "strike u m = u\<lparr>strength := max 10 (fsub (strength u) (fdiv 20 m))\<rparr>"

text \<open>What the AI's intents change in a unit is not its id, strength or training.\<close>

definition sameSoldier :: "Unit \<Rightarrow> Unit \<Rightarrow> bool" where
  "sameSoldier u v \<longleftrightarrow>
     idU v = idU u \<and> strength v = strength u \<and> isTraining v = isTraining u \<and>
     trainingProgress v = trainingProgress u \<and> locationId v = locationId u \<and> ownerU v = ownerU u"

text \<open>
  A node map is well formed when every connection names a node. In the spec's words, an edge
  from a non-sea node into a sea node can only be used when the moving faction has a fleet in
  that sea node; every other edge can always be used. A route from \<open>a\<close> is a list of nodes,
  each reached from the one before over a usable edge.
\<close>

definition wfNodes :: "NodeMap \<Rightarrow> bool" where
  "wfNodes ns \<longleftrightarrow> (\<forall>(k, n) \<in> set ns. \<forall>c \<in> set (connections n). c \<in> fst ` set ns)"

definition traversable :: "NodeMap \<Rightarrow> Unit list \<Rightarrow> Faction \<Rightarrow> string \<Rightarrow> string \<Rightarrow> bool" where
  "traversable ns us faction a b =
     (case map_of ns a of
        None \<Rightarrow> False
      | Some node \<Rightarrow>
          (case map_of ns b of
             None \<Rightarrow> False
           | Some neighbor \<Rightarrow>
               b \<in> set (connections node) \<and>
               (typeN node \<noteq> SEA \<and> typeN neighbor = SEA \<longrightarrow> hasFleet us faction b)))"

fun route :: "NodeMap \<Rightarrow> Unit list \<Rightarrow> Faction \<Rightarrow> string \<Rightarrow> string list \<Rightarrow> bool" where
  "route ns us faction a [] = True"
| "route ns us faction a (b # bs) = (traversable ns us faction a b \<and> route ns us faction b bs)"

text \<open>The queue entries a loop over the connections of \<open>node\<close> may hold.\<close>

definition entryOK :: "NodeMap \<Rightarrow> Unit list \<Rightarrow> Faction \<Rightarrow> string \<Rightarrow> string \<times> string list \<Rightarrow> bool" where
  "entryOK ns us f start e \<longleftrightarrow>
     route ns us f start (snd e) \<and> last (start # snd e) = fst e \<and> map_of ns (fst e) \<noteq> None"

text \<open>
  \<^verbatim>\<open>if (Math.random() > 0.6) moves.push(...)\<close>: the test on the draw. To speak of the share of
  draws that pass it, the draw is taken uniformly from the \<open>N\<close> equally spaced values
  \<open>0, 1/N, ..., (N-1)/N\<close> of \<open>[0, 1)\<close>, for any resolution \<open>N\<close>.
\<close>

definition issuesMove :: "real \<Rightarrow> bool" where
  "issuesMove r \<longleftrightarrow> r > 0.6"

definition grid :: "nat \<Rightarrow> real list" where
  "grid N = map (\<lambda>k. real k / real N) [0..<N]"

definition moveShare :: "nat \<Rightarrow> real" where
  "moveShare N = real (length (filter issuesMove (grid N))) / real N"

definition noMoveShare :: "nat \<Rightarrow> real" where
  "noMoveShare N = real (length (filter (\<lambda>r. \<not> issuesMove r) (grid N))) / real N"

section \<open>Example worlds\<close>

text \<open>
  Environments and states on the initial map, at which the theorems are instantiated. In \<open>envW\<close>
  every draw is 1/2, in \<open>envHigh\<close> 7/10.
\<close>

definition envW :: Env where
  "envW = \<lparr>random = (\<lambda>_. 1 / 2), uuidv4 = (\<lambda>_. ''unit''), battleReport = (\<lambda>loc w l. ''battle'')\<rparr>"

definition fourFleets :: "Command list" where
  "fourFleets = [StartGame ROME, NodeClick ''rome'', Recruit ''f1'' FLEET, Recruit ''f2'' FLEET,
                 Recruit ''f3'' FLEET, Recruit ''f4'' FLEET]"

definition lostGame :: App where
  "lostGame = initialApp\<lparr>hasStarted := True, selectedNodeId := Some ''carthage'',
                          gameOver := True, winner := Some CARTHAGE\<rparr>"

definition selecting :: "string \<Rightarrow> App" where
  "selecting k = initialApp\<lparr>hasStarted := True, selectedNodeId := Some k\<rparr>"

definition hannibal :: Unit where
  "hannibal = (newUnit ''h'' CARTHAGE MERCENARY ''carthage'')
                \<lparr>isTraining := False, trainingProgress := 100, locationId := ''rome''\<rparr>"

definition atGates :: Tick where
  "atGates = \<lparr>st = initialApp\<lparr>hasStarted := True, units := [hannibal]\<rparr>,
              deadUnitIds = [], events = [], draws = 0\<rparr>"


definition legionAtSea :: Tick where
  "legionAtSea =
     \<lparr>st = initialApp\<lparr>hasStarted := True,
            units := [(newUnit ''l'' ROME LEGION ''rome'')
                        \<lparr>isTraining := False, trainingProgress := 100, locationId := ''tyrrhenian_sea''\<rparr>]\<rparr>,
      deadUnitIds = [], events = [], draws = 0\<rparr>"

definition legion :: Unit where
  "legion = (newUnit ''l'' ROME LEGION ''rome'')\<lparr>isTraining := False, trainingProgress := 100\<rparr>"

definition battle :: Tick where
  "battle = \<lparr>st = initialApp\<lparr>hasStarted := True, units := [hannibal, legion]\<rparr>,
             deadUnitIds = [], events = [], draws = 0\<rparr>"

definition recruit :: Unit where
  "recruit = newUnit ''r'' ROME LEGION ''rome''"

definition ambush :: Tick where
  "ambush = \<lparr>st = initialApp\<lparr>hasStarted := True, units := [hannibal, recruit]\<rparr>,
             deadUnitIds = [], events = [], draws = 0\<rparr>"

definition romanFleet :: Unit where
  "romanFleet = (newUnit ''c'' ROME FLEET ''rome'')
                  \<lparr>isTraining := False, trainingProgress := 100, locationId := ''tyrrhenian_sea''\<rparr>"

text \<open>
  Two draws for which the products of the two sides are equal as reals
  (\<open>8013918776155331.25 / 2 ^ 47\<close>, with modifiers 1 and 1.5 at strength 100) but round to
  different doubles, the second being the larger.
\<close>

definition envNear :: Env where
  "envNear = \<lparr>random = (\<lambda>n. if n = 0 then 2564454008369706 / 2 ^ 52
                                else 1709636005579804 / 2 ^ 52),
              uuidv4 = (\<lambda>_. ''unit''), battleReport = (\<lambda>loc w l. ''battle'')\<rparr>"

definition envHigh :: Env where
  "envHigh = \<lparr>random = (\<lambda>_. 7 / 10), uuidv4 = (\<lambda>_. ''unit''), battleReport = (\<lambda>loc w l. ''battle'')\<rparr>"

section \<open>Auxiliary facts\<close>

subsection \<open>Calendar\<close>

lemma winterOn_iff: "winterOn doy \<longleftrightarrow> 300 \<le> doy \<or> doy < 0"
  by (auto simp: winterOn_def WINTER_START_DAY_def WINTER_DURATION_def signed_modulo_int_def)

lemma dayOfYear_nonneg: "0 \<le> d \<Longrightarrow> dayOfYear d = d mod 365"
  by (auto simp: dayOfYear_def signed_modulo_int_def sgn_if)

subsection \<open>What a tick leaves alone\<close>

lemma sameMeta_refl: "sameMeta s s"
  by (simp add: sameMeta_def)

lemma sameMeta_trans: "sameMeta a b \<Longrightarrow> sameMeta b c \<Longrightarrow> sameMeta a c"
  by (simp add: sameMeta_def)

lemma fight_frame:
  "fight env i j t = Some t' \<Longrightarrow>
   sameMeta (st t) (st t') \<and> resources (st t') = resources (st t) \<and> nodes (st t') = nodes (st t) \<and>
   gameOver (st t') = gameOver (st t) \<and> winner (st t') = winner (st t) \<and>
   length (units (st t')) = length (units (st t))"
  by (auto simp: fight_def sameMeta_def Let_def split: option.splits prod.splits)

lemma conquer_frame:
  "conquer i t = Some t' \<Longrightarrow>
   sameMeta (st t) (st t') \<and> resources (st t') = resources (st t) \<and> units (st t') = units (st t) \<and>
   deadUnitIds t' = deadUnitIds t \<and> draws t' = draws t"
  by (auto simp: conquer_def sameMeta_def Let_def split: option.splits if_splits)

lemma arrival_cases:
  assumes "arrival env i t = Some t'"
  obtains (skip) "t' = t"
  | (fight) j where "idU (units (st t) ! i) \<notin> set (deadUnitIds t)"
      "\<not> isMoving (units (st t) ! i)" "\<not> isTraining (units (st t) ! i)"
      "findIndex (isEnemyOf (deadUnitIds t) (units (st t) ! i)) (units (st t)) = Some j"
      "fight env i j t = Some t'"
  | (conquer) "idU (units (st t) ! i) \<notin> set (deadUnitIds t)"
      "\<not> isMoving (units (st t) ! i)" "\<not> isTraining (units (st t) ! i)"
      "findIndex (isEnemyOf (deadUnitIds t) (units (st t) ! i)) (units (st t)) = None"
      "conquer i t = Some t'"
proof (cases "idU (units (st t) ! i) \<in> set (deadUnitIds t) \<or> isMoving (units (st t) ! i)
               \<or> isTraining (units (st t) ! i)")
  case True
  with assms have "t' = t" by (auto simp: arrival_def Let_def split: if_splits)
  then show ?thesis by (rule skip)
next
  case False
  show ?thesis
  proof (cases "findIndex (isEnemyOf (deadUnitIds t) (units (st t) ! i)) (units (st t))")
    case None
    with assms False have "conquer i t = Some t'" by (simp add: arrival_def Let_def)
    with False None show ?thesis by (intro conquer) simp_all
  next
    case (Some j)
    with assms False have "fight env i j t = Some t'" by (simp add: arrival_def Let_def)
    with False Some show ?thesis by (intro fight[of j]) simp_all
  qed
qed

lemma arrival_frame:
  assumes "arrival env i t = Some t'"
  shows "sameMeta (st t) (st t') \<and> resources (st t') = resources (st t) \<and>
         length (units (st t')) = length (units (st t))"
  using assms
proof (cases rule: arrival_cases)
  case skip then show ?thesis by (simp add: sameMeta_refl)
next
  case (fight j) from fight_frame[OF fight(5)] show ?thesis by simp
next
  case conquer from conquer_frame[OF conquer(5)] show ?thesis by simp
qed

lemma arrivals_frame:
  "arrivals env is t = Some t' \<Longrightarrow>
   sameMeta (st t) (st t') \<and> resources (st t') = resources (st t) \<and>
   length (units (st t')) = length (units (st t))"
proof (induction "is" arbitrary: t)
  case Nil then show ?case by (simp add: sameMeta_refl)
next
  case (Cons i "is")
  then obtain t1 where a: "arrival env i t = Some t1" and b: "arrivals env is t1 = Some t'"
    by (auto split: option.splits)
  from arrival_frame[OF a] Cons.IH[OF b] show ?case by (auto intro: sameMeta_trans)
qed

lemma applyRecruitment_frame:
  "applyRecruitment env rec (s, k) = Some (s', k') \<Longrightarrow>
   sameMeta s s' \<and> gameOver s' = gameOver s \<and> winner s' = winner s"
  by (cases rec) (auto simp: applyRecruitment_def sameMeta_def Let_def split: option.splits if_splits)

lemma applyRecruitments_frame:
  "applyRecruitments env recs (s, k) = Some (s', k') \<Longrightarrow>
   sameMeta s s' \<and> gameOver s' = gameOver s \<and> winner s' = winner s"
proof (induction recs arbitrary: s k)
  case Nil then show ?case by (simp add: sameMeta_refl)
next
  case (Cons r recs)
  then obtain s1 k1 where a: "applyRecruitment env r (s, k) = Some (s1, k1)"
    and b: "applyRecruitments env recs (s1, k1) = Some (s', k')"
    by (auto split: option.splits)
  from applyRecruitment_frame[OF a] Cons.IH[OF b] show ?case by (auto intro: sameMeta_trans)
qed

lemma applyMove_frame:
  "sameMeta s (applyMove mv s) \<and> gameOver (applyMove mv s) = gameOver s \<and>
   winner (applyMove mv s) = winner s \<and> resources (applyMove mv s) = resources s \<and>
   nodes (applyMove mv s) = nodes s"
  by (cases mv) (auto simp: applyMove_def sameMeta_def split: option.splits)

lemma applyMoves_frame:
  "sameMeta s (applyMoves mvs s) \<and> gameOver (applyMoves mvs s) = gameOver s \<and>
   winner (applyMoves mvs s) = winner s \<and> resources (applyMoves mvs s) = resources s \<and>
   nodes (applyMoves mvs s) = nodes s"
proof (induction mvs arbitrary: s)
  case Nil then show ?case by (simp add: sameMeta_refl)
next
  case (Cons m mvs)
  from applyMove_frame[of s m] Cons.IH[of "applyMove m s"] show ?case
    by (auto intro: sameMeta_trans)
qed

lemma aiActions_cases:
  assumes "aiActions env t = Some t'"
  obtains (idle) "t' = t"
  | (acts) recruitments moves d s1 k where
      "processAI env (draws t) (st t) = Some (recruitments, moves, d)"
      "applyRecruitments env recruitments (st t, 0) = Some (s1, k)"
      "t' = t\<lparr>st := applyMoves moves s1, draws := d\<rparr>" "\<not> gameOver (st t)"
proof (cases "day (st t) smod 20 = 0 \<and> \<not> gameOver (st t)")
  case False
  with assms have "t' = t" by (simp add: aiActions_def)
  then show ?thesis by (rule idle)
next
  case True
  show ?thesis
  proof (cases "processAI env (draws t) (st t)")
    case None
    with assms True show ?thesis by (simp add: aiActions_def)
  next
    case (Some r)
    obtain recruitments moves d where r: "r = (recruitments, moves, d)" by (cases r)
    show ?thesis
    proof (cases "applyRecruitments env recruitments (st t, 0)")
      case None
      with assms True Some r show ?thesis by (simp add: aiActions_def)
    next
      case (Some q)
      obtain s1 k where q: "q = (s1, k)" by (cases q)
      from assms True \<open>processAI env (draws t) (st t) = Some r\<close> r Some q
      have "t' = t\<lparr>st := applyMoves moves s1, draws := d\<rparr>"
        by (simp add: aiActions_def)
      with \<open>processAI env (draws t) (st t) = Some r\<close> r Some q True show ?thesis
        by (intro acts[of recruitments moves d s1 k]) simp_all
    qed
  qed
qed

lemma aiActions_frame:
  assumes "aiActions env t = Some t'"
  shows "sameMeta (st t) (st t') \<and> gameOver (st t') = gameOver (st t) \<and>
         winner (st t') = winner (st t) \<and> events t' = events t"
  using assms
proof (cases rule: aiActions_cases)
  case idle then show ?thesis by (simp add: sameMeta_refl)
next
  case (acts recruitments moves d s1 k)
  from applyRecruitments_frame[OF acts(2)] applyMoves_frame[of s1 moves] acts(3)
  show ?thesis by (auto intro: sameMeta_trans)
qed

lemma economy_st:
  "day (st (economy s)) = day s + 1"
  "isWinter (st (economy s)) = winterOn (dayOfYear (day s + 1))"
  "nodes (st (economy s)) = regenNodes (nodes s)"
  "units (st (economy s)) = units s"
  "playerFaction (st (economy s)) = playerFaction s"
  "hasStarted (st (economy s)) = hasStarted s"
  "gameSpeed (st (economy s)) = gameSpeed s"
  "gameOver (st (economy s)) = gameOver s"
  "winner (st (economy s)) = winner s"
  "selectedNodeId (st (economy s)) = selectedNodeId s"
  "isTargetingMode (st (economy s)) = isTargetingMode s"
  "logG (st (economy s)) = logG s"
  "mapImage (st (economy s)) = mapImage s"
  "startScreenImage (st (economy s)) = startScreenImage s"
  "deadUnitIds (economy s) = []"
  "draws (economy s) = 0"
  by (simp_all add: economy_def Let_def)

lemma updateGame_cases:
  assumes "updateGame env s = Some s'"
  obtains (idle) "\<not> hasStarted s \<or> gameSpeed s = 0 \<or> gameOver s" "s' = s"
  | (run) us t2 t3 where "hasStarted s" "gameSpeed s \<noteq> 0" "\<not> gameOver s"
      "mapThrow (advanceUnit (regenNodes (nodes s)) (winterOn (dayOfYear (day s + 1)))) (units s) = Some us"
      "arrivals env [0..<length us] (marched s us) = Some t2"
      "aiActions env (purge t2) = Some t3"
      "s' = finish t3"
proof (cases "\<not> hasStarted s \<or> gameSpeed s = 0 \<or> gameOver s")
  case True
  with assms have "s' = s" by (auto simp: updateGame_def split: if_splits)
  with True show ?thesis by (rule idle)
next
  case False
  let ?m = "mapThrow (advanceUnit (regenNodes (nodes s)) (winterOn (dayOfYear (day s + 1)))) (units s)"
  from assms False obtain us where us: "?m = Some us"
    by (cases ?m) (simp_all add: updateGame_def Let_def economy_st)
  let ?a = "arrivals env [0..<length us] (marched s us)"
  from assms False us obtain t2 where t2: "?a = Some t2"
    by (cases ?a) (simp_all add: updateGame_def Let_def economy_st marched_def)
  let ?b = "aiActions env (purge t2)"
  from assms False us t2 obtain t3 where t3: "?b = Some t3"
    by (cases ?b) (simp_all add: updateGame_def Let_def economy_st marched_def)
  from assms False us t2 t3 have "s' = finish t3"
    by (simp add: updateGame_def Let_def economy_st marched_def)
  with False us t2 t3 show ?thesis by (intro run[of us t2 t3]) simp_all
qed

subsection \<open>The fields of a node that no operation writes\<close>

lemma nodeStatic_fields:
  "idN (nodeStatic n) = idN n" "nameN (nodeStatic n) = nameN n" "typeN (nodeStatic n) = typeN n"
  "income (nodeStatic n) = income n" "manpowerGrowth (nodeStatic n) = manpowerGrowth n"
  "maxManpower (nodeStatic n) = maxManpower n" "connections (nodeStatic n) = connections n"
  by (simp_all add: nodeStatic_def)

lemma nodeStatic_eqD:
  assumes "nodeStatic a = nodeStatic b"
  shows "idN a = idN b \<and> nameN a = nameN b \<and> typeN a = typeN b \<and> income a = income b \<and>
         manpowerGrowth a = manpowerGrowth b \<and> maxManpower a = maxManpower b \<and>
         connections a = connections b"
  using nodeStatic_fields[of a] nodeStatic_fields[of b] assms by simp

lemma map_of_statics: "map_of (statics ns) k = map_option nodeStatic (map_of ns k)"
  by (induction ns) (auto simp: statics_def)

lemma statics_lookup:
  assumes "statics ns = statics ns0" "map_of ns k = Some n"
  obtains n0 where "map_of ns0 k = Some n0" "nodeStatic n = nodeStatic n0"
proof -
  from assms have "map_option nodeStatic (map_of ns0 k) = Some (nodeStatic n)"
    by (metis map_of_statics option.simps(9))
  then show ?thesis using that by (cases "map_of ns0 k") auto
qed

lemma statics_keys: "map fst (statics ns) = map fst ns"
  by (induction ns) (auto simp: statics_def)

lemma idsOK_statics: "idsOK (statics ns) = idsOK ns"
  by (induction ns) (auto simp: statics_def idsOK_def nodeStatic_fields)

lemma idsOK_cong: "statics ns = statics ns0 \<Longrightarrow> idsOK ns = idsOK ns0"
  by (metis idsOK_statics)

lemma idsOK_lookup: "idsOK ns \<Longrightarrow> map_of ns k = Some n \<Longrightarrow> idN n = k"
  by (auto simp: idsOK_def dest!: map_of_SomeD)

lemma statics_update:
  "map_of ns k = Some n \<Longrightarrow> nodeStatic n' = nodeStatic n \<Longrightarrow>
   statics (AList.update k n' ns) = statics ns"
  by (induction ns) (auto simp: statics_def split: if_splits)

lemma regenNode_static: "nodeStatic (regenNode n) = nodeStatic n"
  by (simp add: regenNode_def nodeStatic_def)

lemma statics_regen: "statics (regenNodes ns) = statics ns"
  by (induction ns) (auto simp: statics_def regenNodes_def regenNode_static)

lemma fight_nodes: "fight env i j t = Some t' \<Longrightarrow> nodes (st t') = nodes (st t)"
  by (simp add: fight_frame)

lemma conquer_statics:
  assumes "conquer i t = Some t'" "idsOK (nodes (st t))"
  shows "statics (nodes (st t')) = statics (nodes (st t))"
proof (cases "map_of (nodes (st t)) (locationId (units (st t) ! i))")
  case None
  with assms(1) show ?thesis by (simp add: conquer_def Let_def)
next
  case (Some loc)
  then have k: "idN loc = locationId (units (st t) ! i)" using assms(2) by (rule idsOK_lookup[rotated])
  have "statics (AList.update (idN loc) (loc\<lparr>ownerN := ownerU (units (st t) ! i), fortificationLevel := 0\<rparr>)
           (nodes (st t))) = statics (nodes (st t))"
    using Some k by (intro statics_update[where n = loc]) (simp_all add: nodeStatic_def)
  with assms(1) Some show ?thesis
    by (auto simp: conquer_def Let_def split: if_splits)
qed

lemma arrival_statics:
  assumes "arrival env i t = Some t'" "idsOK (nodes (st t))"
  shows "statics (nodes (st t')) = statics (nodes (st t))"
  using assms(1)
proof (cases rule: arrival_cases)
  case skip then show ?thesis by simp
next
  case (fight j) then show ?thesis by (simp add: fight_nodes)
next
  case conquer then show ?thesis using assms(2) by (simp add: conquer_statics)
qed

lemma arrivals_statics:
  "arrivals env is t = Some t' \<Longrightarrow> idsOK (nodes (st t)) \<Longrightarrow>
   statics (nodes (st t')) = statics (nodes (st t))"
proof (induction "is" arbitrary: t)
  case Nil then show ?case by simp
next
  case (Cons i "is")
  then obtain t1 where a: "arrival env i t = Some t1" and b: "arrivals env is t1 = Some t'"
    by (auto split: option.splits)
  from arrival_statics[OF a Cons.prems(2)] have s1: "statics (nodes (st t1)) = statics (nodes (st t))" .
  then have "idsOK (nodes (st t1))" using Cons.prems(2) idsOK_cong by blast
  from Cons.IH[OF b this] s1 show ?case by simp
qed

lemma applyRecruitment_statics:
  "applyRecruitment env rec (s, k) = Some (s', k') \<Longrightarrow> statics (nodes s') = statics (nodes s)"
  by (cases rec)
     (auto simp: applyRecruitment_def Let_def nodeStatic_def split: option.splits if_splits
           intro!: statics_update)

lemma applyRecruitments_statics:
  "applyRecruitments env recs (s, k) = Some (s', k') \<Longrightarrow> statics (nodes s') = statics (nodes s)"
proof (induction recs arbitrary: s k)
  case Nil then show ?case by simp
next
  case (Cons r recs)
  then obtain s1 k1 where a: "applyRecruitment env r (s, k) = Some (s1, k1)"
    and b: "applyRecruitments env recs (s1, k1) = Some (s', k')"
    by (auto split: option.splits)
  from applyRecruitment_statics[OF a] Cons.IH[OF b] show ?case by simp
qed

lemma aiActions_statics:
  assumes "aiActions env t = Some t'"
  shows "statics (nodes (st t')) = statics (nodes (st t))"
  using assms
proof (cases rule: aiActions_cases)
  case idle then show ?thesis by simp
next
  case (acts recruitments moves d s1 k)
  from applyRecruitments_statics[OF acts(2)] applyMoves_frame[of s1 moves] acts(3)
  show ?thesis by simp
qed

lemma finish_fields:
  "nodes (finish t) = nodes (st t)" "units (finish t) = units (st t)"
  "resources (finish t) = resources (st t)" "day (finish t) = day (st t)"
  "isWinter (finish t) = isWinter (st t)" "gameOver (finish t) = gameOver (st t)"
  "winner (finish t) = winner (st t)" "playerFaction (finish t) = playerFaction (st t)"
  "hasStarted (finish t) = hasStarted (st t)" "gameSpeed (finish t) = gameSpeed (st t)"
  "selectedNodeId (finish t) = selectedNodeId (st t)"
  "isTargetingMode (finish t) = isTargetingMode (st t)"
  by (simp_all add: finish_def)

lemma purge_fields:
  "nodes (st (purge t)) = nodes (st t)" "resources (st (purge t)) = resources (st t)"
  "day (st (purge t)) = day (st t)" "isWinter (st (purge t)) = isWinter (st t)"
  "gameOver (st (purge t)) = gameOver (st t)" "winner (st (purge t)) = winner (st t)"
  "playerFaction (st (purge t)) = playerFaction (st t)"
  "hasStarted (st (purge t)) = hasStarted (st t)" "gameSpeed (st (purge t)) = gameSpeed (st t)"
  "deadUnitIds (purge t) = deadUnitIds t" "events (purge t) = events t" "draws (purge t) = draws t"
  "units (st (purge t)) = filter (\<lambda>u. idU u \<notin> set (deadUnitIds t)) (units (st t))"
  by (simp_all add: purge_def)

lemma marched_fields:
  "nodes (st (marched s us)) = regenNodes (nodes s)" "units (st (marched s us)) = us"
  "resources (st (marched s us)) = resources (st (economy s))"
  "day (st (marched s us)) = day s + 1"
  "isWinter (st (marched s us)) = winterOn (dayOfYear (day s + 1))"
  "gameOver (st (marched s us)) = gameOver s" "winner (st (marched s us)) = winner s"
  "playerFaction (st (marched s us)) = playerFaction s"
  "hasStarted (st (marched s us)) = hasStarted s" "gameSpeed (st (marched s us)) = gameSpeed s"
  "deadUnitIds (marched s us) = []" "draws (marched s us) = 0"
  by (simp_all add: marched_def economy_st)

lemma updateGame_statics:
  assumes "updateGame env s = Some s'" "idsOK (nodes s)"
  shows "statics (nodes s') = statics (nodes s)"
  using assms(1)
proof (cases rule: updateGame_cases)
  case idle then show ?thesis by simp
next
  case (run us t2 t3)
  have r: "statics (nodes (st (marched s us))) = statics (nodes s)"
    by (simp add: marched_fields statics_regen)
  then have "idsOK (nodes (st (marched s us)))" using assms(2) idsOK_cong by blast
  from arrivals_statics[OF run(5) this] r have "statics (nodes (st t2)) = statics (nodes s)" by simp
  with aiActions_statics[OF run(6)] run(7) show ?thesis
    by (simp add: finish_fields purge_fields)
qed

lemma updateGame_day:
  assumes "updateGame env s = Some s'"
  shows "day s' = day s \<or> day s' = day s + 1"
  using assms
proof (cases rule: updateGame_cases)
  case idle then show ?thesis by simp
next
  case (run us t2 t3)
  from arrivals_frame[OF run(5)] aiActions_frame[OF run(6)] run(7) show ?thesis
    by (simp add: sameMeta_def finish_fields purge_fields marched_fields)
qed

subsection \<open>Gold\<close>

lemma incomesOK_statics: "incomesOK (statics ns) = incomesOK ns"
  by (induction ns) (auto simp: statics_def incomesOK_def nodeStatic_fields)

lemma incomesOK_cong: "statics ns = statics ns0 \<Longrightarrow> incomesOK ns = incomesOK ns0"
  by (metis incomesOK_statics)

lemma addGold_OK: "goldOK r \<Longrightarrow> 0 \<le> gold r f + a \<Longrightarrow> goldOK (addGold f a r)"
  by (simp add: goldOK_def addGold_def)

lemma setGold_OK: "goldOK r \<Longrightarrow> 0 \<le> a \<Longrightarrow> goldOK (setGold f a r)"
  by (simp add: goldOK_def setGold_def)

lemma tradeIncome_nonneg: "0 \<le> tradeIncome f ns"
  by (simp add: tradeIncome_def DAILY_TRADE_INCOME_def)

lemma foldl_income_nonneg:
  "0 \<le> a \<Longrightarrow> \<forall>n \<in> set xs. 0 \<le> income n \<Longrightarrow> 0 \<le> foldl (\<lambda>sum n. sum + income n) a xs"
  by (induction xs arbitrary: a) auto

lemma annualIncome_nonneg: "incomesOK ns \<Longrightarrow> 0 \<le> annualIncome f ns"
  unfolding annualIncome_def
  by (rule foldl_income_nonneg) (auto simp: incomesOK_def)

lemma economy_gold:
  assumes "goldOK (resources s)" "incomesOK (nodes s)"
  shows "goldOK (resources (st (economy s)))"
proof -
  let ?ns = "regenNodes (nodes s)"
  have i: "incomesOK ?ns" using assms(2) incomesOK_cong[OF statics_regen] by blast
  have g: "goldOK (addGold f a r)" if "goldOK r" "0 \<le> a" for f a r
    using that by (intro addGold_OK) (auto simp: goldOK_def intro: add_nonneg_nonneg)
  let ?r1 = "addGold CARTHAGE (tradeIncome CARTHAGE ?ns) (addGold ROME (tradeIncome ROME ?ns) (resources s))"
  have r1: "goldOK ?r1" by (intro g tradeIncome_nonneg assms(1))
  have r2: "goldOK (addGold CARTHAGE (annualIncome CARTHAGE ?ns) (addGold ROME (annualIncome ROME ?ns) ?r1))"
    by (intro g annualIncome_nonneg tradeIncome_nonneg assms(1) i)
  show ?thesis using r1 r2 by (simp add: economy_def Let_def)
qed

lemma applyRecruitment_gold:
  "applyRecruitment env rec (s, k) = Some (s', k') \<Longrightarrow> goldOK (resources s) \<Longrightarrow> goldOK (resources s')"
  by (cases rec)
     (auto simp: applyRecruitment_def Let_def split: option.splits if_splits intro!: addGold_OK)

lemma applyRecruitments_gold:
  "applyRecruitments env recs (s, k) = Some (s', k') \<Longrightarrow> goldOK (resources s) \<Longrightarrow> goldOK (resources s')"
proof (induction recs arbitrary: s k)
  case Nil then show ?case by simp
next
  case (Cons r recs)
  then obtain s1 k1 where a: "applyRecruitment env r (s, k) = Some (s1, k1)"
    and b: "applyRecruitments env recs (s1, k1) = Some (s', k')"
    by (auto split: option.splits)
  from applyRecruitment_gold[OF a Cons.prems(2)] Cons.IH[OF b] show ?case by simp
qed

lemma aiActions_gold:
  assumes "aiActions env t = Some t'" "goldOK (resources (st t))"
  shows "goldOK (resources (st t'))"
  using assms(1)
proof (cases rule: aiActions_cases)
  case idle then show ?thesis using assms(2) by simp
next
  case (acts recruitments moves d s1 k)
  from applyRecruitments_gold[OF acts(2) assms(2)] applyMoves_frame[of s1 moves] acts(3)
  show ?thesis by simp
qed

lemma updateGame_gold:
  assumes "updateGame env s = Some s'" "goldOK (resources s)" "incomesOK (nodes s)"
  shows "goldOK (resources s')"
  using assms(1)
proof (cases rule: updateGame_cases)
  case idle then show ?thesis using assms(2) by simp
next
  case (run us t2 t3)
  from arrivals_frame[OF run(5)] economy_gold[OF assms(2,3)]
  have "goldOK (resources (st (purge t2)))" by (simp add: purge_fields marched_fields)
  from aiActions_gold[OF run(6) this] run(7) show ?thesis by (simp add: finish_fields)
qed

subsection \<open>Commands\<close>

lemma handleRecruit_cases:
  assumes "handleRecruit uid ty s = Some s'"
  obtains (rejected) "s' = s"
  | (recruited) sel node n where "selectedNodeId s = Some sel" "sel \<noteq> []" "\<not> gameOver s"
      "map_of (nodes s) sel = Some node" "map_of (nodes s) (idN node) = Some n"
      "gold (resources s) (playerFaction s) \<ge> goldC (unitCost ty)"
      "localManpower node \<ge> manpowerC (unitCost ty)"
      "s' = s\<lparr>nodes := AList.update (idN node)
                           (n\<lparr>localManpower := localManpower n - manpowerC (unitCost ty)\<rparr>) (nodes s),
               resources := setGold (playerFaction s)
                              (gold (resources s) (playerFaction s) - goldC (unitCost ty)) (resources s),
               units := units s @ [newUnit uid (playerFaction s) ty (idN node)]\<rparr>"
proof (cases "\<not> truthy (selectedNodeId s) \<or> gameOver s
               \<or> \<not> gold (resources s) (playerFaction s) \<ge> goldC (unitCost ty)")
  case True
  with assms have "s' = s"
    by (auto simp: handleRecruit_def Let_def split: if_splits option.splits)
  then show ?thesis by (rule rejected)
next
  case False
  then obtain sel where sel: "selectedNodeId s = Some sel" "sel \<noteq> []"
    by (auto simp: truthy_def split: option.splits)
  show ?thesis
  proof (cases "map_of (nodes s) sel")
    case None
    with assms False sel show ?thesis by (simp add: handleRecruit_def Let_def)
  next
    case (Some node)
    show ?thesis
    proof (cases "localManpower node \<ge> manpowerC (unitCost ty)")
      case no: False
      with assms False sel Some have "s' = s" by (auto simp: handleRecruit_def Let_def)
      then show ?thesis by (rule rejected)
    next
      case yes: True
      show ?thesis
      proof (cases "map_of (nodes s) (idN node)")
        case None
        with assms False sel Some yes show ?thesis by (simp add: handleRecruit_def Let_def)
      next
        case n: (Some n)
        from assms False sel Some yes n show ?thesis
          by (intro recruited[of sel node n]) (simp_all add: handleRecruit_def Let_def)
      qed
    qed
  qed
qed

lemma handleFortify_cases:
  assumes "handleFortify s = Some s'"
  obtains (rejected) "s' = s"
  | (fortified) sel node n where "selectedNodeId s = Some sel" "sel \<noteq> []"
      "map_of (nodes s) sel = Some node" "map_of (nodes s) (idN node) = Some n"
      "gold (resources s) (playerFaction s) \<ge> FORTIFY_COST"
      "fortificationLevel node < MAX_FORTIFICATION"
      "s' = s\<lparr>nodes := AList.update (idN node)
                           (n\<lparr>fortificationLevel := fortificationLevel n + 1\<rparr>) (nodes s),
               resources := setGold (playerFaction s)
                              (gold (resources s) (playerFaction s) - FORTIFY_COST) (resources s)\<rparr>"
proof (cases "\<not> truthy (selectedNodeId s) \<or> \<not> gold (resources s) (playerFaction s) \<ge> FORTIFY_COST")
  case True
  with assms have "s' = s"
    by (auto simp: handleFortify_def Let_def split: if_splits option.splits)
  then show ?thesis by (rule rejected)
next
  case False
  then obtain sel where sel: "selectedNodeId s = Some sel" "sel \<noteq> []"
    by (auto simp: truthy_def split: option.splits)
  show ?thesis
  proof (cases "map_of (nodes s) sel")
    case None
    with assms False sel show ?thesis by (simp add: handleFortify_def Let_def)
  next
    case (Some node)
    show ?thesis
    proof (cases "fortificationLevel node < MAX_FORTIFICATION")
      case no: False
      with assms False sel Some have "s' = s" by (auto simp: handleFortify_def Let_def)
      then show ?thesis by (rule rejected)
    next
      case yes: True
      show ?thesis
      proof (cases "map_of (nodes s) (idN node)")
        case None
        with assms False sel Some yes show ?thesis by (simp add: handleFortify_def Let_def)
      next
        case n: (Some n)
        from assms False sel Some yes n show ?thesis
          by (intro fortified[of sel node n]) (simp_all add: handleFortify_def Let_def)
      qed
    qed
  qed
qed

lemma handleNodeClick_world: "handleNodeClick k s = Some s' \<Longrightarrow> sameWorld s s'"
  unfolding handleNodeClick_def Let_def
  by (auto simp: sameWorld_def addLog_def split: if_splits option.splits PathResult.splits list.splits)

lemma handleRally_world: "handleRally s = Some s' \<Longrightarrow> sameWorld s s'"
  unfolding handleRally_def
  by (auto simp: sameWorld_def addLog_def split: if_splits option.splits)

lemma handleHalt_world: "sameWorld s (handleHalt s)"
  unfolding handleHalt_def
  by (auto simp: sameWorld_def addLog_def split: if_splits option.splits)

lemma simple_world:
  "sameWorld s (enterMoveMode s)" "sameWorld s (pauseToggle s)" "sameWorld s (addLog msg s)"
  "sameWorld s (startGame f s)" "sameWorld s (s\<lparr>mapImage := Some img\<rparr>)"
  "sameWorld s (s\<lparr>startScreenImage := Some img\<rparr>)"
  by (simp_all add: sameWorld_def enterMoveMode_def pauseToggle_def addLog_def startGame_def)

lemma command_cases:
  assumes "command c s = Some s'"
  obtains (world) "sameWorld s s'"
  | (recruit) uid ty where "handleRecruit uid ty s = Some s'"
  | (fortify) "handleFortify s = Some s'"
proof (cases c)
  case (StartGame f) with assms world simple_world(4)[of s f] show ?thesis by auto
next
  case (NodeClick k) with assms world handleNodeClick_world[of k s s'] show ?thesis by auto
next
  case (Recruit uid ty) with assms recruit show ?thesis by auto
next
  case Fortify with assms fortify show ?thesis by auto
next
  case Rally with assms world handleRally_world[of s s'] show ?thesis by auto
next
  case Halt with assms world handleHalt_world[of s] show ?thesis by auto
next
  case EnterMoveMode with assms world simple_world(1)[of s] show ?thesis by auto
next
  case PauseToggle with assms world simple_world(2)[of s] show ?thesis by auto
next
  case (AddLog msg) with assms world simple_world(3)[of s msg] show ?thesis by auto
next
  case (SetMapImage img) with assms world simple_world(5)[of s img] show ?thesis by auto
next
  case (SetStartScreenImage img) with assms world simple_world(6)[of s img] show ?thesis by auto
qed

subsection \<open>An invariant of every run\<close>

lemma INITIAL_NODES_ids: "idsOK INITIAL_NODES"
  by (simp add: idsOK_def INITIAL_NODES_def createNode_def)

lemma INITIAL_NODES_incomes: "incomesOK INITIAL_NODES"
  by (simp add: incomesOK_def INITIAL_NODES_def createNode_def)

lemma worldInv_nodes:
  assumes "worldInv s"
  shows "idsOK (nodes s)" "incomesOK (nodes s)"
  using assms INITIAL_NODES_ids INITIAL_NODES_incomes idsOK_cong incomesOK_cong
  unfolding worldInv_def by blast+

lemma worldInv_init: "worldInv initialApp"
  by (simp add: worldInv_def initialApp_def goldOK_def initialGold_def INITIAL_GOLD_def
           split: Faction.splits)

lemma worldInv_tick:
  assumes "worldInv s" "updateGame env s = Some s'"
  shows "worldInv s'"
proof -
  from updateGame_statics[OF assms(2) worldInv_nodes(1)[OF assms(1)]]
       updateGame_gold[OF assms(2) _ worldInv_nodes(2)[OF assms(1)]]
       updateGame_day[OF assms(2)] assms(1)
  show ?thesis by (auto simp: worldInv_def)
qed

lemma worldInv_command:
  assumes "worldInv s" "command c s = Some s'"
  shows "worldInv s'"
  using assms(2)
proof (cases rule: command_cases)
  case world
  with assms(1) show ?thesis by (simp add: worldInv_def sameWorld_def)
next
  case (recruit uid ty)
  then show ?thesis
  proof (cases rule: handleRecruit_cases)
    case rejected with assms(1) show ?thesis by simp
  next
    case (recruited sel node n)
    have "statics (nodes s') = statics (nodes s)"
      using recruited(5) by (simp add: recruited(8) statics_update nodeStatic_def)
    moreover have "goldOK (resources s')"
      using assms(1) recruited(6) by (simp add: recruited(8) worldInv_def setGold_OK)
    ultimately show ?thesis using assms(1) by (simp add: worldInv_def recruited(8))
  qed
next
  case fortify
  then show ?thesis
  proof (cases rule: handleFortify_cases)
    case rejected with assms(1) show ?thesis by simp
  next
    case (fortified sel node n)
    have "statics (nodes s') = statics (nodes s)"
      using fortified(4) by (simp add: fortified(7) statics_update nodeStatic_def)
    moreover have "goldOK (resources s')"
      using assms(1) fortified(5) by (simp add: fortified(7) worldInv_def setGold_OK)
    ultimately show ?thesis using assms(1) by (simp add: worldInv_def fortified(7))
  qed
qed

lemma reachable_inv: "reachable s \<Longrightarrow> worldInv s"
  by (induction rule: reachable.induct) (auto intro: worldInv_init worldInv_tick worldInv_command)

subsection \<open>Runs of commands\<close>

lemma reachable_run: "reachable s \<Longrightarrow> run cs s = Some s' \<Longrightarrow> reachable s'"
  by (induction cs arbitrary: s) (auto split: option.splits intro: reachable.cmd)

lemmas eval_commands =
  initialApp_def startGame_def handleNodeClick_def handleRecruit_def handleFortify_def
  truthy_def INITIAL_NODES_def createNode_def unitCost_def UNIT_COST_FLEET_def UNIT_COST_ARMY_def
  setGold_def initialGold_def INITIAL_GOLD_def newUnit_def FORTIFY_COST_def MAX_FORTIFICATION_def
  Let_def

lemma actionBar_selected: "actionBar s = Some n \<Longrightarrow> selectedNode s = Some n"
  by (auto simp: actionBar_def selectedNode_def split: option.splits if_splits)

lemma handleRecruit_unit:
  assumes "handleRecruit uid ty s = Some s'" "s' \<noteq> s" "selectedNode s = Some node"
  shows "units s' = units s @ [newUnit uid (playerFaction s) ty (idN node)]"
  using assms(1)
proof (cases rule: handleRecruit_cases)
  case rejected with assms(2) show ?thesis by simp
next
  case (recruited sel node' n)
  with assms(3) have "node' = node" by (simp add: selectedNode_def)
  with recruited(8) show ?thesis by simp
qed

lemma find_SomeD: "find P xs = Some x \<Longrightarrow> x \<in> set xs \<and> P x"
  by (induction xs) (auto split: if_splits)

lemma aiRecruit_kinds:
  assumes "(nid, ty) \<in> set (fst (aiRecruit env s f d))"
  shows "\<exists>node \<in> snd ` set (nodes s). idN node = nid \<and> ownerN node = f \<and>
           (if ty = FLEET then typeN node = PORT else typeN node = CITY \<or> typeN node = PORT)"
proof -
  let ?valid = "filter (\<lambda>n. localManpower n \<ge> manpowerC UNIT_COST_ARMY)
                  (filter (\<lambda>n. ownerN n = f) (map snd (nodes s)))"
  let ?f = "find (\<lambda>n. length (filter (\<lambda>u. locationId u = idN n) (units s)) < 2) ?valid"
  from assms obtain target where t: "?f = Some target"
    and k: "nid = idN target" "if ty = FLEET then typeN target = PORT else typeN target \<noteq> SEA"
    by (cases ?f) (auto simp: aiRecruit_def Let_def split: if_splits)
  from find_SomeD[OF t] have "target \<in> snd ` set (nodes s)" "ownerN target = f" by auto
  moreover have "typeN target \<noteq> SEA \<longleftrightarrow> typeN target = CITY \<or> typeN target = PORT"
    by (cases "typeN target") auto
  ultimately show ?thesis using k by (intro bexI[of _ target]) (auto split: if_splits)
qed

lemmas eval_clicks =
  selecting_def selectedNode_def clickRecruitFleet_def clickRecruitArmy_def actionBar_def
  canAfford_def eval_commands

text \<open>
  The handler itself accepts any node kind: called with a city selected it recruits a fleet
  there. Only the two buttons call it.
\<close>

lemma handleRecruit_no_kind_test:
  "map_option (\<lambda>s. map (\<lambda>u. (typeU u, locationId u)) (units s))
     (handleRecruit ''u'' FLEET (selecting ''capua'')) = Some [(FLEET, ''capua'')]"
  by (simp add: eval_clicks)

subsection \<open>Conquest\<close>











lemma conquer_land_keeps_sea:
  assumes "conquer i t = Some t'" "idsOK (nodes (st t))" "typeU (units (st t) ! i) \<noteq> FLEET"
    and "map_of (nodes (st t)) k = Some n" "typeN n = SEA"
  shows "map_of (nodes (st t')) k = Some n"
proof (cases "map_of (nodes (st t)) (locationId (units (st t) ! i))")
  case None
  with assms(1) show ?thesis by (simp add: conquer_def Let_def)
next
  case (Some loc)
  with assms(2) have id: "idN loc = locationId (units (st t) ! i)" by (simp add: idsOK_lookup)
  show ?thesis
  proof (cases "typeN loc = SEA")
    case True
    with assms(1,3) Some have "t' = t" by (auto simp: conquer_def Let_def split: if_splits)
    with assms(4) show ?thesis by simp
  next
    case False
    with Some assms(4,5) id have "idN loc \<noteq> k" by auto
    with assms(1,4) Some show ?thesis
      by (auto simp: conquer_def Let_def update_conv' split: if_splits)
  qed
qed

lemma arrival_land_keeps_sea:
  assumes "arrival env i t = Some t'" "idsOK (nodes (st t))" "typeU (units (st t) ! i) \<noteq> FLEET"
    and "map_of (nodes (st t)) k = Some n" "typeN n = SEA"
  shows "map_of (nodes (st t')) k = Some n"
  using assms(1)
proof (cases rule: arrival_cases)
  case skip then show ?thesis using assms(4) by simp
next
  case (fight j) from fight_frame[OF fight(5)] assms(4) show ?thesis by simp
next
  case conquer from conquer_land_keeps_sea[OF conquer(5) assms(2-5)] show ?thesis .
qed

lemma INITIAL_NODES_sea:
  "\<forall>(k, n) \<in> set INITIAL_NODES. typeN n = SEA \<longrightarrow>
     income n = 0 \<and> manpowerGrowth n = 0 \<and> maxManpower n = 1000 \<and> localManpower n = 0"
  by (simp add: INITIAL_NODES_def createNode_def)

lemma reachable_sea:
  assumes "reachable s" "map_of (nodes s) k = Some n" "typeN n = SEA"
  shows "income n = 0 \<and> manpowerGrowth n = 0 \<and> maxManpower n = 1000"
proof -
  from reachable_inv[OF assms(1)] have "statics (nodes s) = statics INITIAL_NODES"
    by (simp add: worldInv_def)
  from statics_lookup[OF this assms(2)] obtain n0 where
    n0: "map_of INITIAL_NODES k = Some n0" "nodeStatic n = nodeStatic n0" by blast
  from nodeStatic_eqD[OF n0(2)] assms(3) have e: "typeN n0 = SEA" "income n = income n0"
    "manpowerGrowth n = manpowerGrowth n0" "maxManpower n = maxManpower n0" by simp_all
  from map_of_SomeD[OF n0(1)] INITIAL_NODES_sea e(1)
  have "income n0 = 0 \<and> manpowerGrowth n0 = 0 \<and> maxManpower n0 = 1000" by blast
  with e show ?thesis by simp
qed

lemmas eval_tick =
  updateGame_def economy_def regenNodes_def regenNode_def tradeIncome_def annualIncome_def
  addGold_def dayOfYear_def winterOn_def seasonEvents_def advanceUnit_def moveUnit_def
  arrival_def conquer_def fight_def handleCombat_def unitMod_def locationName_def isEnemyOf_def
  purge_def aiActions_def finish_def orElse_def truthy_def signed_modulo_int_def
  MOVEMENT_SPEED_def TRAINING_SPEED_def AUTUMN_START_DAY_def WINTER_START_DAY_def
  WINTER_DURATION_def DAILY_TRADE_INCOME_def initialApp_def INITIAL_NODES_def createNode_def
  newUnit_def UNIT_STRENGTH_ARMY_def initialGold_def INITIAL_GOLD_def Let_def

subsection \<open>Rounding to the nearest double\<close>

text \<open>
  The exponent found by \<open>expo\<close> is the one of the binade; \<open>fl\<close> is within half a spacing of its
  argument, fixes every multiple of the spacing (\<open>fl_grid\<close>) and returns one (\<open>fl_fl\<close>). Two
  doubles \<open>x < s\<close> are at least \<open>s * 2 ^ -53\<close> apart (\<open>fl_gap\<close>), which keeps a product with a
  draw below 1 under its bound after rounding (\<open>fl_roll\<close>).
\<close>

lemma binade_ge: "e \<le> binade n e x"
proof (induction n arbitrary: e)
  case 0 show ?case by simp
next
  case (Suc n)
  from Suc[of "e + 1"] show ?case by simp
qed

lemma binade_le: "binade n e x \<le> e + int n"
proof (induction n arbitrary: e)
  case 0 show ?case by simp
next
  case (Suc n)
  from Suc[of "e + 1"] show ?case by simp
qed

lemma binade_lower: "2 powi e \<le> x \<Longrightarrow> 2 powi (binade n e x) \<le> x"
  by (induction n arbitrary: e) simp_all

lemma binade_lower': "binade n e x \<noteq> e \<Longrightarrow> 2 powi (binade n e x) \<le> x"
  by (cases n) (auto simp: binade_lower)

lemma binade_upper: "binade n e x < e + int n \<Longrightarrow> x < 2 powi (binade n e x + 1)"
proof (induction n arbitrary: e)
  case 0 then show ?case by simp
next
  case (Suc n)
  show ?case
  proof (cases "2 powi (e + 1) \<le> x")
    case True
    with Suc.prems have "binade n (e + 1) x < (e + 1) + int n" by simp
    from Suc.IH[OF this] True show ?thesis by simp
  next
    case False then show ?thesis by simp
  qed
qed


lemma p2_pos: "0 < (2::real) powi a"
  by (simp add: zero_less_power_int)

lemma p2_le: "(2::real) powi a \<le> 2 powi b \<longleftrightarrow> a \<le> b"
proof
  assume h: "(2::real) powi a \<le> 2 powi b"
  show "a \<le> b"
  proof (rule ccontr)
    assume "\<not> a \<le> b"
    then have "b < a" by simp
    then have "(2::real) powi b < 2 powi a" by (rule power_int_strict_increasing) simp
    with h show False by simp
  qed
next
  assume "a \<le> b"
  then show "(2::real) powi a \<le> 2 powi b" by (rule power_int_increasing) simp
qed

lemma p2_less: "(2::real) powi a < 2 powi b \<longleftrightarrow> a < b"
  using p2_le[of b a] by (simp add: not_le[symmetric])

lemma p2_add: "(2::real) powi (a + b) = 2 powi a * 2 powi b"
  by (simp add: power_int_add)

lemma p2_diff: "(2::real) powi (a - b) = 2 powi a / 2 powi b"
  by (simp add: power_int_diff)

lemma p2_int: "0 \<le> k \<Longrightarrow> (2::real) powi k = of_int (2 ^ nat k)"
  by (simp add: power_int_def)

lemma expo_range: "- 1022 \<le> expo x \<and> expo x \<le> 1023"
  using binade_ge[of "- 1022" 2045 "\<bar>x\<bar>"] binade_le[of 2045 "- 1022" "\<bar>x\<bar>"]
  by (simp add: expo_def)

lemma expo_upper: "\<bar>x\<bar> < 2 powi 1024 \<Longrightarrow> \<bar>x\<bar> < 2 powi (expo x + 1)"
proof -
  assume h: "\<bar>x\<bar> < 2 powi 1024"
  show ?thesis
  proof (cases "expo x = 1023")
    case True with h show ?thesis by simp
  next
    case False
    with expo_range[of x] have "binade 2045 (- 1022) \<bar>x\<bar> < - 1022 + int 2045"
      by (simp add: expo_def)
    from binade_upper[OF this] show ?thesis by (simp add: expo_def)
  qed
qed

lemma expo_lower: "expo x \<noteq> - 1022 \<Longrightarrow> 2 powi (expo x) \<le> \<bar>x\<bar>"
  unfolding expo_def by (rule binade_lower')

lemma expo_lower': "2 powi (- 1022) \<le> \<bar>x\<bar> \<Longrightarrow> 2 powi (expo x) \<le> \<bar>x\<bar>"
  unfolding expo_def by (rule binade_lower)

lemma expo_eq:
  assumes "- 1022 \<le> e" "e \<le> 1023" "2 powi e \<le> \<bar>x\<bar>" "\<bar>x\<bar> < 2 powi (e + 1)"
  shows "expo x = e"
proof -
  have "(2::real) powi (e + 1) \<le> 2 powi 1024" using assms(2) by (simp only: p2_le)
  with assms(4) have u: "\<bar>x\<bar> < 2 powi 1024" by simp
  have "(2::real) powi (- 1022) \<le> 2 powi e" using assms(1) by (simp only: p2_le)
  with assms(3) have l: "2 powi (- 1022) \<le> \<bar>x\<bar>" by simp
  from assms(3) expo_upper[OF u] have "(2::real) powi e < 2 powi (expo x + 1)" by simp
  then have a: "e < expo x + 1" by (simp only: p2_less)
  from assms(4) expo_lower'[OF l] have "(2::real) powi (expo x) < 2 powi (e + 1)" by simp
  then have "expo x < e + 1" by (simp only: p2_less)
  with a show ?thesis by simp
qed

lemma expo_small: "\<bar>x\<bar> < 2 powi (- 1021) \<Longrightarrow> expo x = - 1022"
proof (rule ccontr)
  assume h: "\<bar>x\<bar> < 2 powi (- 1021)" and n: "expo x \<noteq> - 1022"
  from expo_lower[OF n] h have "(2::real) powi (expo x) < 2 powi (- 1021)" by simp
  then have "expo x < - 1021" by (simp only: p2_less)
  with expo_range[of x] n show False by simp
qed

lemma expo_mono:
  assumes "\<bar>x\<bar> \<le> \<bar>y\<bar>" "\<bar>y\<bar> < 2 powi 1024"
  shows "expo x \<le> expo y"
proof (cases "expo x = - 1022")
  case True with expo_range[of y] show ?thesis by simp
next
  case False
  from expo_lower[OF False] assms(1) expo_upper[OF assms(2)]
  have "(2::real) powi (expo x) < 2 powi (expo y + 1)" by simp
  then have "expo x < expo y + 1" by (simp only: p2_less)
  then show ?thesis by simp
qed

lemma ulp_pos: "0 < ulp x"
  by (simp add: ulp_def p2_pos)

lemma rne_error: "\<bar>of_int (rne q) - q\<bar> \<le> 1 / 2"
proof -
  have "of_int \<lfloor>q\<rfloor> \<le> q" "q < of_int \<lfloor>q\<rfloor> + 1" by linarith+
  then show ?thesis by (auto simp: rne_def Let_def)
qed

lemma rne_int: "rne (of_int n) = n"
  by (simp add: rne_def)

lemma rne_le: "q \<le> of_int n \<Longrightarrow> rne q \<le> n"
proof -
  assume h: "q \<le> of_int n"
  then have f: "\<lfloor>q\<rfloor> \<le> n" by (simp add: floor_le_iff)
  show ?thesis
  proof (cases "\<lfloor>q\<rfloor> = n")
    case True
    with h have "q = of_int n" by linarith
    then show ?thesis by (simp add: rne_int)
  next
    case False
    with f have "\<lfloor>q\<rfloor> + 1 \<le> n" by simp
    then show ?thesis by (auto simp: rne_def Let_def)
  qed
qed

lemma rne_ge: "of_int n \<le> q \<Longrightarrow> n \<le> rne q"
proof -
  assume "of_int n \<le> q"
  then have "n \<le> \<lfloor>q\<rfloor>" by (simp add: le_floor_iff)
  then show ?thesis by (auto simp: rne_def Let_def)
qed

lemma fl_error: "\<bar>fl x - x\<bar> \<le> ulp x / 2"
proof -
  have "fl x - x = (of_int (rne (x / ulp x)) - x / ulp x) * ulp x"
    using ulp_pos[of x] by (simp add: fl_def field_simps)
  then have "\<bar>fl x - x\<bar> = \<bar>of_int (rne (x / ulp x)) - x / ulp x\<bar> * ulp x"
    using ulp_pos[of x] by (simp add: abs_mult)
  also have "\<dots> \<le> 1 / 2 * ulp x"
    using rne_error[of "x / ulp x"] ulp_pos[of x] by (intro mult_right_mono) simp_all
  finally show ?thesis by simp
qed

lemma fl_nonneg: "0 \<le> x \<Longrightarrow> 0 \<le> fl x"
proof -
  assume "0 \<le> x"
  then have "of_int 0 \<le> x / ulp x" using ulp_pos[of x] by simp
  from rne_ge[OF this] ulp_pos[of x] show ?thesis by (simp add: fl_def)
qed

lemma fl_grid:
  assumes n: "\<bar>n\<bar> < 2 ^ 53" and k: "- 1074 \<le> k" and x: "x = of_int n * 2 powi k"
  shows "fl x = x"
proof -
  let ?e = "expo x"
  have ek: "?e - 52 \<le> k"
  proof (cases "?e = - 1022")
    case True with k show ?thesis by simp
  next
    case False
    from n have "real_of_int \<bar>n\<bar> < real_of_int (2 ^ 53)" by (simp only: of_int_less_iff)
    then have "\<bar>real_of_int n\<bar> < 2 powi 53" by simp
    then have "\<bar>real_of_int n\<bar> * 2 powi k < 2 powi 53 * 2 powi k"
      using p2_pos[of k] by (simp only: mult_less_cancel_right_pos)
    moreover have "\<bar>x\<bar> = \<bar>real_of_int n\<bar> * 2 powi k"
      using p2_pos[of k] by (simp add: x abs_mult)
    ultimately have "\<bar>x\<bar> < 2 powi (53 + k)" by (simp add: p2_add)
    with expo_lower[OF False] have "(2::real) powi ?e < 2 powi (53 + k)" by simp
    then have "?e < 53 + k" by (simp only: p2_less)
    then show ?thesis by simp
  qed
  define j where "j = k - (?e - 52)"
  have j: "0 \<le> j" "k = j + (?e - 52)" using ek by (simp_all add: j_def)
  have "(2::real) powi k = 2 powi j * ulp x"
    unfolding ulp_def p2_add[symmetric] using j(2) by simp
  with x have "x = of_int n * 2 powi j * ulp x" by simp
  then have "x / ulp x = of_int n * 2 powi j" using ulp_pos[of x] by (simp add: field_simps)
  also have "\<dots> = of_int (n * 2 ^ nat j)" using j(1) by (simp add: p2_int)
  finally have q: "x / ulp x = of_int (n * 2 ^ nat j)" .
  have "fl x = (x / ulp x) * ulp x" unfolding fl_def q rne_int ..
  then show ?thesis using ulp_pos[of x] by simp
qed

lemma fl_one: "fl 1 = 1"
  using fl_grid[of 1 0 1] by simp

lemma expo_le_1022: "\<bar>x\<bar> < 2 powi 1023 \<Longrightarrow> expo x \<le> 1022"
proof (rule ccontr)
  assume h: "\<bar>x\<bar> < 2 powi 1023" and "\<not> expo x \<le> 1022"
  with expo_range[of x] have e: "expo x = 1023" by simp
  then have "expo x \<noteq> - 1022" by simp
  from expo_lower[OF this] e h show False by simp
qed

lemma fl_fl:
  assumes b: "\<bar>x\<bar> < 2 powi 1024"
  shows "fl (fl x) = fl x"
proof -
  let ?e = "expo x"
  let ?N = "rne (x / ulp x)"
  have k: "- 1074 \<le> ?e - 52" using expo_range[of x] by simp
  have "53 + (?e - 52) = ?e + 1" by simp
  then have u: "2 powi 53 * ulp x = 2 powi (?e + 1)"
    unfolding ulp_def p2_add[symmetric] by (rule arg_cong)
  from expo_upper[OF b] u have "\<bar>x\<bar> < 2 powi 53 * ulp x" by simp
  then have "\<bar>x\<bar> / ulp x < 2 powi 53" using ulp_pos[of x] by (simp add: field_simps)
  then have a: "\<bar>x / ulp x\<bar> < 2 powi 53" using ulp_pos[of x] by (simp add: abs_divide)
  have p: "(2::real) powi 53 = of_int (2 ^ 53)" "- ((2::real) powi 53) = of_int (- (2 ^ 53))"
    by simp_all
  from a have a': "x / ulp x < 2 powi 53" "- (x / ulp x) < 2 powi 53"
    by (simp_all only: abs_less_iff)
  from a'(1) have "x / ulp x \<le> of_int (2 ^ 53)" unfolding p by (rule less_imp_le)
  then have hi: "?N \<le> 2 ^ 53" by (rule rne_le)
  from a'(2) have "- (2 powi 53) \<le> x / ulp x" by linarith
  then have "of_int (- (2 ^ 53)) \<le> x / ulp x" by (simp only: p(2))
  then have lo: "- (2 ^ 53) \<le> ?N" by (rule rne_ge)
  have f: "fl x = of_int ?N * 2 powi (?e - 52)" by (simp add: fl_def ulp_def)
  consider "\<bar>?N\<bar> < 2 ^ 53" | "?N = 2 ^ 53" | "?N = - (2 ^ 53)" using hi lo by linarith
  then show ?thesis
  proof cases
    case 1
    from fl_grid[OF 1 k f] show ?thesis .
  next
    case 2
    have "fl x = of_int 1 * 2 powi (?e + 1)"
      unfolding f 2 using u by (simp add: ulp_def)
    moreover have "- 1074 \<le> ?e + 1" using expo_range[of x] by simp
    ultimately show ?thesis using fl_grid[of 1 "?e + 1" "fl x"] by simp
  next
    case 3
    have "fl x = of_int (- 1) * 2 powi (?e + 1)"
      unfolding f 3 using u by (simp add: ulp_def)
    moreover have "- 1074 \<le> ?e + 1" using expo_range[of x] by simp
    ultimately show ?thesis using fl_grid[of "- 1" "?e + 1" "fl x"] by simp
  qed
qed

lemma fl_upper_normal:
  assumes "2 powi (- 1022) \<le> y" 
  shows "fl y \<le> y * (1 + 2 powi (- 53))"
proof -
  have y: "0 < y" using assms p2_pos[of "- 1022"] by linarith
  then have a: "\<bar>y\<bar> = y" by simp
  from expo_lower'[of y] assms a have "2 powi (expo y) \<le> y" by simp
  then have "2 powi (expo y) * 2 powi (- 52) \<le> y * 2 powi (- 52)"
    using p2_pos[of "- 52"] by (simp only: mult_le_cancel_right_pos)
  moreover have "expo y - 52 = expo y + (- 52)" by simp
  then have "ulp y = 2 powi (expo y) * 2 powi (- 52)"
    unfolding ulp_def p2_add[symmetric] by (rule arg_cong)
  ultimately have "ulp y \<le> y * 2 powi (- 52)" by simp
  moreover have "(2::real) powi (- 52) / 2 = 2 powi (- 53)" by simp
  ultimately have "ulp y / 2 \<le> y * 2 powi (- 53)" by simp
  with fl_error[of y] have "fl y - y \<le> y * 2 powi (- 53)" by linarith
  then show ?thesis by (simp add: algebra_simps)
qed

lemma fl_upper_small:
  assumes "\<bar>y\<bar> < 2 powi (- 1022)"
  shows "fl y \<le> y + 2 powi (- 1075)"
proof -
  have "(2::real) powi (- 1022) \<le> 2 powi (- 1021)" by (simp only: p2_le)
  with assms have "\<bar>y\<bar> < 2 powi (- 1021)" by simp
  from expo_small[OF this] have "ulp y = 2 powi (- 1074)" by (simp add: ulp_def)
  moreover have "(2::real) powi (- 1074) / 2 = 2 powi (- 1075)" by simp
  ultimately have "ulp y / 2 = 2 powi (- 1075)" by simp
  with fl_error[of y] show ?thesis by linarith
qed

lemma fl_below:
  assumes "0 \<le> y" "y \<le> B * (1 - 2 powi (- 53))" "1 \<le> B"
  shows "fl y < B"
proof (cases "y < 2 powi (- 1022)")
  case True
  with assms(1) have "\<bar>y\<bar> < 2 powi (- 1022)" by simp
  from fl_upper_small[OF this] True have "fl y < 2 powi (- 1022) + 2 powi (- 1075)" by linarith
  moreover have "(2::real) powi (- 1022) < 2 powi (- 1)" "(2::real) powi (- 1075) < 2 powi (- 1)"
    by (simp_all only: p2_less)
  moreover have "(2::real) powi (- 1) = 1 / 2" by simp
  ultimately show ?thesis using assms(3) by linarith
next
  case False
  then have "2 powi (- 1022) \<le> y" by simp
  from fl_upper_normal[OF this] have "fl y \<le> y * (1 + 2 powi (- 53))" .
  also have "\<dots> \<le> B * (1 - 2 powi (- 53)) * (1 + 2 powi (- 53))"
    using assms(2) p2_pos[of "- 53"] by (intro mult_right_mono) simp_all
  also have "\<dots> = B - B * (2 powi (- 53) * 2 powi (- 53))" by (simp add: algebra_simps)
  also have "\<dots> < B" using assms(3) p2_pos[of "- 53"] by simp
  finally show ?thesis .
qed

lemma fl_gap:
  assumes dx: "fl x = x" and ds: "fl s = s" and x0: "0 \<le> x" and xs: "x < s"
    and sb: "s < 2 powi 1024"
  shows "x \<le> s * (1 - 2 powi (- 53))"
proof -
  let ?u = "(2::real) powi (- 53)"
  define ex es where "ex = expo x" and "es = expo s"
  define Nx Ns where "Nx = rne (x / ulp x)" and "Ns = rne (s / ulp s)"
  define U :: real where "U = 2 powi (ex - 52)"
  have U: "0 < U" unfolding U_def by (rule p2_pos)
  have s0: "0 < s" using x0 xs by simp
  have ax: "\<bar>x\<bar> = x" and as: "\<bar>s\<bar> = s" using x0 s0 by simp_all
  have fx: "real_of_int Nx * U = x"
    using dx by (simp add: fl_def ulp_def Nx_def ex_def U_def)
  have fs: "real_of_int Ns * 2 powi (es - 52) = s"
    using ds by (simp add: fl_def ulp_def Ns_def es_def)
  have le: "ex \<le> es" using expo_mono[of x s] ax as xs sb by (simp add: ex_def es_def)
  have xb: "x < 2 powi (ex + 1)" using expo_upper[of x] ax xs sb by (simp add: ex_def)
  have u1: "?u \<le> 1 / 2"
  proof -
    have "?u \<le> 2 powi (- 1)" by (simp only: p2_le)
    then show ?thesis by simp
  qed
  have u0: "0 < ?u" by (rule p2_pos)
  have half: "2 powi (e - 1) \<le> 2 powi e * (1 - ?u)" for e
  proof -
    have "e - 1 = e + (- 1)" by simp
    then have "(2::real) powi (e - 1) = 2 powi e * 2 powi (- 1)"
      unfolding p2_add[symmetric] by (rule arg_cong)
    also have "\<dots> = 2 powi e * (1 / 2)" by simp
    also have "\<dots> \<le> 2 powi e * (1 - ?u)"
      using u1 p2_pos[of e] by (intro mult_left_mono) simp_all
    finally show ?thesis .
  qed
  have step: "x + U \<le> real_of_int M * U" if "x < real_of_int M * U" for M
  proof -
    from fx that have "real_of_int Nx * U < real_of_int M * U" by (rule ord_eq_less_trans)
    then have "real_of_int Nx < real_of_int M"
      using U by (simp only: mult_less_cancel_right_pos)
    then have "Nx + 1 \<le> M" by simp
    then have "real_of_int (Nx + 1) \<le> real_of_int M" by (simp only: of_int_le_iff)
    then have "real_of_int (Nx + 1) * U \<le> real_of_int M * U"
      using U by (simp only: mult_le_cancel_right_pos)
    moreover have "real_of_int (Nx + 1) * U = real_of_int Nx * U + U"
      by (simp add: algebra_simps)
    ultimately show ?thesis using fx by simp
  qed
  show ?thesis
  proof (cases "ex = es")
    case True
    from fs True have "real_of_int Ns * U = s" by (simp add: U_def)
    with xs have "x < real_of_int Ns * U" by simp
    from step[OF this] \<open>real_of_int Ns * U = s\<close> have a: "x + U \<le> s" by simp
    have "s < 2 powi (es + 1)" using expo_upper[of s] as sb by (simp add: es_def)
    then have "s * ?u < 2 powi (es + 1) * ?u" using u0 by (simp only: mult_less_cancel_right_pos)
    moreover have "es + 1 + (- 53) = ex - 52" using True by simp
    then have "2 powi (es + 1) * ?u = U"
      unfolding p2_add[symmetric] U_def by (rule arg_cong)
    ultimately have "s * ?u < U" by simp
    with a have "x \<le> s - s * ?u" by linarith
    then show ?thesis by (simp add: algebra_simps)
  next
    case False
    with le have lt: "ex < es" by simp
    with expo_range[of x] have "expo s \<noteq> - 1022" by (simp add: ex_def es_def)
    from expo_lower[OF this] as have sl: "2 powi es \<le> s" by (simp add: es_def)
    have "x \<le> 2 powi es * (1 - ?u)"
    proof (cases "ex + 1 = es")
      case True
      have "53 + (ex - 52) = ex + 1" by simp
      then have e: "(2::real) powi 53 * U = 2 powi (ex + 1)"
        unfolding p2_add[symmetric] U_def by (rule arg_cong)
      have "(2::real) powi 53 = real_of_int (2 ^ 53)" by simp
      with e xb have "x < real_of_int (2 ^ 53) * U" by simp
      from step[OF this] e \<open>(2::real) powi 53 = real_of_int (2 ^ 53)\<close>
      have a: "x + U \<le> 2 powi es" using True by simp
      have "es + (- 53) = ex - 52" using True by simp
      then have "2 powi es * ?u = U"
        unfolding p2_add[symmetric] U_def by (rule arg_cong)
      with a have "x \<le> 2 powi es - 2 powi es * ?u" by linarith
      then show ?thesis by (simp add: algebra_simps)
    next
      case False
      with lt have "ex + 1 \<le> es - 1" by simp
      then have "(2::real) powi (ex + 1) \<le> 2 powi (es - 1)" by (simp only: p2_le)
      with xb half[of es] show ?thesis by linarith
    qed
    also have "\<dots> \<le> s * (1 - ?u)" using sl u1 by (intro mult_right_mono) simp_all
    finally show ?thesis .
  qed
qed

lemma fl_roll:
  assumes r: "fl r = r" "0 \<le> r" "r < 1" and s: "fl s = s" "1 \<le> s" and m: "1 \<le> m"
    and b: "s * m < 2 powi 1024"
  shows "0 \<le> fl (fl (r * s) * m) \<and> fl (fl (r * s) * m) < s * m"
proof -
  let ?u = "(2::real) powi (- 53)"
  have u: "0 < 1 - ?u"
  proof -
    have "?u < 2 powi 0" by (simp only: p2_less)
    then show ?thesis by simp
  qed
  have "(1::real) < 2 powi 1024"
  proof -
    have "(2::real) powi 0 < 2 powi 1024" by (simp only: p2_less)
    then show ?thesis by simp
  qed
  from fl_gap[OF r(1) fl_one r(2,3) this] have r1: "r \<le> 1 - ?u" by simp
  have "s * 1 \<le> s * m" using s(2) m by (intro mult_left_mono) simp_all
  then have sm: "s \<le> s * m" by simp
  with b have sb: "s < 2 powi 1024" by simp
  have y0: "0 \<le> r * s" using r(2) s(2) by simp
  have "r * s \<le> (1 - ?u) * s" using r1 s(2) by (intro mult_right_mono) simp_all
  then have y1: "r * s \<le> s * (1 - ?u)" by (simp add: mult.commute)
  from fl_below[OF y0 y1 s(2)] have x1: "fl (r * s) < s" .
  have x0: "0 \<le> fl (r * s)" using y0 by (rule fl_nonneg)
  have "r * s \<le> 1 * s" using r(3) s(2) by (intro mult_right_mono) simp_all
  then have "r * s \<le> s" by simp
  with y0 sb have "\<bar>r * s\<bar> < 2 powi 1024" by simp
  from fl_gap[OF fl_fl[OF this] s(1) x0 x1 sb] have "fl (r * s) \<le> s * (1 - ?u)" .
  then have "fl (r * s) * m \<le> s * (1 - ?u) * m" using m by (intro mult_right_mono) simp_all
  then have z1: "fl (r * s) * m \<le> s * m * (1 - ?u)" by (simp add: mult.commute mult.left_commute)
  have z0: "0 \<le> fl (r * s) * m" using x0 m by simp
  have "1 \<le> s * m" using s(2) sm by (rule order_trans)
  from fl_below[OF z0 z1 this] fl_nonneg[OF z0] show ?thesis by simp
qed

lemma fl_eval:
  assumes "- 1022 \<le> e" "e \<le> 1023" "2 powi e \<le> \<bar>x\<bar>" "\<bar>x\<bar> < 2 powi (e + 1)"
    and "rne (x / 2 powi (e - 52)) = n"
  shows "fl x = of_int n * 2 powi (e - 52)"
  using expo_eq[OF assms(1-4)] assms(5) by (simp add: fl_def ulp_def)

lemma fl_half: "\<bar>n\<bar> < 2 ^ 53 \<Longrightarrow> fl (real_of_int n / 2) = real_of_int n / 2"
  using fl_grid[of n "- 1" "real_of_int n / 2"] by simp

lemma fl_nonpos: "x \<le> 0 \<Longrightarrow> fl x \<le> 0"
proof -
  assume "x \<le> 0"
  then have "x / ulp x \<le> of_int 0" using ulp_pos[of x] by (simp add: divide_nonpos_pos)
  from rne_le[OF this] ulp_pos[of x] show ?thesis by (simp add: fl_def mult_nonpos_nonneg)
qed

lemma fl_le_double:
  assumes d: "fl d = d" "0 \<le> d" "d < 2 powi 1024" and x: "x \<le> d"
  shows "fl x \<le> d"
proof (cases "0 \<le> x")
  case False
  then have "fl x \<le> 0" by (intro fl_nonpos) simp
  with d(2) show ?thesis by simp
next
  case True
  define ex ed where "ex = expo x" and "ed = expo d"
  define Nd where "Nd = rne (d / ulp d)"
  define j where "j = ed - ex"
  have "\<bar>x\<bar> \<le> \<bar>d\<bar>" "\<bar>d\<bar> < 2 powi 1024" using True x d(2,3) by simp_all
  from expo_mono[OF this] have j: "0 \<le> j" by (simp add: j_def ex_def ed_def)
  have fd: "real_of_int Nd * 2 powi (ed - 52) = d"
    using d(1) by (simp add: fl_def ulp_def Nd_def ed_def)
  have ux: "ulp x = 2 powi (ex - 52)" by (simp add: ulp_def ex_def)
  have "ed - 52 = j + (ex - 52)" by (simp add: j_def)
  then have "(2::real) powi (ed - 52) = 2 powi j * ulp x"
    unfolding ux p2_add[symmetric] by (rule arg_cong)
  also have "\<dots> = real_of_int (2 ^ nat j) * ulp x" using j by (simp add: p2_int)
  finally have "d = real_of_int (Nd * 2 ^ nat j) * ulp x" using fd by simp
  then have q: "d / ulp x = real_of_int (Nd * 2 ^ nat j)" using ulp_pos[of x] by simp
  have "x / ulp x \<le> d / ulp x" using x ulp_pos[of x] by (simp add: divide_right_mono)
  then have "x / ulp x \<le> real_of_int (Nd * 2 ^ nat j)" unfolding q .
  from rne_le[OF this] have "real_of_int (rne (x / ulp x)) \<le> real_of_int (Nd * 2 ^ nat j)"
    by (simp only: of_int_le_iff)
  then have "real_of_int (rne (x / ulp x)) * ulp x \<le> real_of_int (Nd * 2 ^ nat j) * ulp x"
    using ulp_pos[of x] by (simp only: mult_le_cancel_right_pos)
  also have "\<dots> = d" using q ulp_pos[of x] by (simp add: field_simps)
  finally show ?thesis by (simp add: fl_def)
qed

lemma isDouble_int: "\<bar>n\<bar> < 2 ^ 53 \<Longrightarrow> isDouble (real_of_int n)"
proof -
  assume n: "\<bar>n\<bar> < 2 ^ 53"
  from fl_grid[OF n, of 0 "real_of_int n"] have "fl (real_of_int n) = real_of_int n" by simp
  moreover have "\<bar>real_of_int n\<bar> < 2 powi 53"
  proof -
    from n have "real_of_int \<bar>n\<bar> < real_of_int (2 ^ 53)" by (simp only: of_int_less_iff)
    then show ?thesis by simp
  qed
  moreover have "(2::real) powi 53 < 2 powi 1024" by (simp only: p2_less)
  ultimately show ?thesis unfolding isDouble_def by linarith
qed

text \<open>
  The literals \<^verbatim>\<open>0.6\<close> and \<^verbatim>\<open>0.7\<close> of \<^verbatim>\<open>processAI\<close> are the doubles \<open>fl (6 / 10)\<close> and
  \<open>fl (7 / 10)\<close>, both below the fraction. A double exceeds the literal exactly when it exceeds
  the fraction, which is what the tests on a draw are written with.
\<close>

lemma above_literal:
  assumes a: "fl c = a" and n: "a = real_of_int n / 2 ^ 53" "\<bar>n\<bar> < 2 ^ 53" "0 \<le> a"
    and c: "a \<le> c" "c < a * (1 + 2 powi (- 53))" and d: "isDouble d"
  shows "a < d \<longleftrightarrow> c < d"
proof
  assume "c < d" with c(1) show "a < d" by simp
next
  assume ad: "a < d"
  let ?u = "(2::real) powi (- 53)"
  have u: "0 < ?u" "?u < 1"
  proof -
    show "0 < ?u" by (rule p2_pos)
    have "?u < 2 powi 0" by (simp only: p2_less)
    then show "?u < 1" by simp
  qed
  have "a = real_of_int n * 2 powi (- 53)" unfolding n(1) by simp
  from fl_grid[OF n(2) _ this] have fa: "fl a = a" by simp
  from d have dd0: "fl d = d" "\<bar>d\<bar> < 2 powi 1024" unfolding isDouble_def by blast+
  from dd0(2) have "d < 2 powi 1024" by linarith
  note dd = dd0(1) this
  from fl_gap[OF fa dd(1) n(3) ad dd(2)] have g: "a \<le> d * (1 - ?u)" .
  have d0: "0 < d" using n(3) ad by simp
  have "a * (1 + ?u) \<le> d * (1 - ?u) * (1 + ?u)" using g u by (intro mult_right_mono) simp_all
  also have "\<dots> = d - d * (?u * ?u)" by (simp add: algebra_simps)
  also have "\<dots> < d" using d0 u by simp
  finally show "c < d" using c(2) by simp
qed

lemma fl_06: "fl (6 / 10) = 5404319552844595 / 2 ^ 53"
  by (subst fl_eval[where e = "- 1" and n = 5404319552844595]) (simp_all add: rne_def Let_def)

lemma fl_07: "fl (7 / 10) = 6305039478318694 / 2 ^ 53"
  by (subst fl_eval[where e = "- 1" and n = 6305039478318694]) (simp_all add: rne_def Let_def)

lemma literal_06: "isDouble d \<Longrightarrow> fl (6 / 10) < d \<longleftrightarrow> 6 / 10 < d"
  unfolding fl_06
  by (rule above_literal[where n = 5404319552844595, OF fl_06]) simp_all

lemma literal_07: "isDouble d \<Longrightarrow> fl (7 / 10) < d \<longleftrightarrow> 7 / 10 < d"
  unfolding fl_07
  by (rule above_literal[where n = 6305039478318694, OF fl_07]) simp_all

text \<open>The roundings of the example \<open>envNear\<close>.\<close>

lemma near_tie_first:
  "fmul (fmul (2564454008369706 / 2 ^ 52) 100) 1 = 8013918776155331 / 2 ^ 47"
proof -
  have a: "fmul (2564454008369706 / 2 ^ 52) 100 = 8013918776155331 / 2 ^ 47"
    unfolding fmul_def
    by (subst fl_eval[where e = 5 and n = 8013918776155331]) (simp_all add: rne_def Let_def)
  have b: "fmul (8013918776155331 / 2 ^ 47) 1 = 8013918776155331 / 2 ^ 47"
    unfolding fmul_def
    using fl_grid[of 8013918776155331 "- 47" "8013918776155331 / 2 ^ 47"] by simp
  show ?thesis by (simp only: a b)
qed

lemma near_tie_second:
  "fmul (fmul (1709636005579804 / 2 ^ 52) 100) (3 / 2) = 8013918776155332 / 2 ^ 47"
proof -
  have a: "fmul (1709636005579804 / 2 ^ 52) 100 = 5342612517436888 / 2 ^ 47"
    unfolding fmul_def
    by (subst fl_eval[where e = 5 and n = 5342612517436888]) (simp_all add: rne_def Let_def)
  have b: "fmul (5342612517436888 / 2 ^ 47) (3 / 2) = 8013918776155332 / 2 ^ 47"
    unfolding fmul_def
    by (subst fl_eval[where e = 5 and n = 8013918776155332]) (simp_all add: rne_def Let_def)
  show ?thesis by (simp only: a b)
qed

lemma strike_legion: "fsub 100 (fdiv 20 (3 / 2)) = 6098624495397547 / 2 ^ 46"
proof -
  have a: "fdiv 20 (3 / 2) = 7505999378950827 / 2 ^ 49"
    unfolding fdiv_def
    by (subst fl_eval[where e = 3 and n = 7505999378950827]) (simp_all add: rne_def Let_def)
  have b: "fsub 100 (7505999378950827 / 2 ^ 49) = 6098624495397547 / 2 ^ 46"
    unfolding fsub_def
    by (subst fl_eval[where e = 6 and n = 6098624495397547]) (simp_all add: rne_def Let_def)
  show ?thesis by (simp only: a b)
qed

subsection \<open>Combat\<close>

lemma findIndex_SomeD: "findIndex P xs = Some k \<Longrightarrow> k < length xs \<and> P (xs ! k)"
proof (induction xs arbitrary: k)
  case Nil then show ?case by simp
next
  case (Cons x xs)
  show ?case
  proof (cases "P x")
    case True with Cons.prems show ?thesis by simp
  next
    case False
    with Cons.prems obtain k' where "findIndex P xs = Some k'" "k = Suc k'"
      by (auto split: option.splits)
    with Cons.IH[of k'] show ?thesis by simp
  qed
qed

lemma findIndex_NoneD: "findIndex P xs = None \<Longrightarrow> x \<in> set xs \<Longrightarrow> \<not> P x"
  by (induction xs) (auto split: if_splits option.splits)

lemma findIndex_distinct:
  "distinct (map f xs) \<Longrightarrow> w < length xs \<Longrightarrow> findIndex (\<lambda>u. f u = f (xs ! w)) xs = Some w"
proof (induction xs arbitrary: w)
  case Nil then show ?case by simp
next
  case (Cons x xs)
  show ?case
  proof (cases w)
    case 0 then show ?thesis by simp
  next
    case (Suc w')
    with Cons.prems have "f x \<noteq> f (xs ! w')" by (auto simp: image_iff)
    moreover from Cons.prems Suc have "findIndex (\<lambda>u. f u = f (xs ! w')) xs = Some w'"
      by (intro Cons.IH) simp_all
    ultimately show ?thesis using Suc by simp
  qed
qed

lemma map_update_same:
  "(\<And>x. f (g x) = f x) \<Longrightarrow> map f (xs[k := g (xs ! k)]) = map f xs"
proof (induction xs arbitrary: k)
  case Nil then show ?case by simp
next
  case (Cons x xs) then show ?case by (cases k) simp_all
qed

lemma unitMod_formula:
  assumes "0 \<le> fortificationLevel loc" "fortificationLevel loc < 2 ^ 52"
  shows "unitMod loc u = (if typeN loc = SEA \<and> typeU u = FLEET then 1.5 else 1) +
           (if ownerN loc = ownerU u then 0.5 * real_of_int (fortificationLevel loc) else 0)"
proof (cases "ownerN loc = ownerU u \<and> fortificationLevel loc > 0")
  case False
  with assms(1) show ?thesis by (auto simp: unitMod_def Let_def)
next
  case True
  define n where "n = fortificationLevel loc"
  have n: "0 < n" "n < 2 ^ 52" using True assms(2) by (simp_all add: n_def)
  define h where "h = fmul (real_of_int n) 0.5"
  have a: "h = real_of_int n / 2"
    unfolding h_def fmul_def using fl_half[of n] n by simp
  have "fl (real_of_int (2 + n) / 2) = real_of_int (2 + n) / 2" using n by (intro fl_half) simp
  then have b: "fadd 1 (real_of_int n / 2) = 1 + real_of_int n / 2"
    by (simp add: fadd_def add_divide_distrib)
  have "fl (real_of_int (3 + n) / 2) = real_of_int (3 + n) / 2" using n by (intro fl_half) simp
  then have c: "fadd 1.5 (real_of_int n / 2) = 1.5 + real_of_int n / 2"
    by (simp add: fadd_def add_divide_distrib)
  from True have "unitMod loc u = fadd (if typeN loc = SEA \<and> typeU u = FLEET then 1.5 else 1) h"
    by (simp add: unitMod_def n_def h_def)
  also have "\<dots> = (if typeN loc = SEA \<and> typeU u = FLEET then 1.5 else 1) + real_of_int n / 2"
    unfolding a using b c by simp
  finally show ?thesis using True by (simp add: n_def)
qed

lemma unitMod_ge1:
  "0 \<le> fortificationLevel loc \<Longrightarrow> fortificationLevel loc < 2 ^ 52 \<Longrightarrow> 1 \<le> unitMod loc u"
  by (simp add: unitMod_formula)

lemma fight_result:
  assumes loc: "map_of (nodes (st t)) (locationId (units (st t) ! i)) = Some loc"
    and len: "i < length (units (st t))" "j < length (units (st t))"
    and first: "first =
        (fmul (fmul (random env (draws t)) (strength (units (st t) ! i))) (unitMod loc (units (st t) ! i))
           \<ge> fmul (fmul (random env (draws t + 1)) (strength (units (st t) ! j)))
                  (unitMod loc (units (st t) ! j)))"
    and w: "w = (if first then i else j)" and l: "l = (if first then j else i)"
  shows "\<exists>t'. fight env i j t = Some t' \<and>
           deadUnitIds t' = deadUnitIds t @ [idU (units (st t) ! l)] \<and>
           draws t' = draws t + 2 \<and>
           map idU (units (st t')) = map idU (units (st t)) \<and>
           strength (units (st t') ! w)
             = max 10 (fsub (strength (units (st t) ! w)) (fdiv 20 (unitMod loc (units (st t) ! w)))) \<and>
           (distinct (map idU (units (st t))) \<longrightarrow>
              units (st t') = (units (st t))[w := strike (units (st t) ! w) (unitMod loc (units (st t) ! w))])"
proof -
  let ?us = "units (st t)"
  let ?W = "strike (?us ! w) (unitMod loc (?us ! w))"
  let ?us1 = "?us[w := ?W]"
  let ?us2 = "(case findIndex (\<lambda>u. idU u = idU ?W) ?us1 of None \<Rightarrow> ?us1
               | Some winnerIndex \<Rightarrow> ?us1[winnerIndex := (?us1 ! winnerIndex)\<lparr>strength := strength ?W\<rparr>])"
  have wl: "w < length ?us" using len w by simp
  let ?flavor = "battleReport env (locationName (nodes (st t)) (locationId ?W)) (ownerU ?W) (ownerU (?us ! l))"
  let ?ev = "if playerFaction (st t) = SPECTATOR \<or> ownerU ?W = playerFaction (st t)
                \<or> ownerU (?us ! l) = playerFaction (st t)
             then events t @ [?flavor] else events t"
  have f: "fight env i j t = Some (t\<lparr>st := (st t)\<lparr>units := ?us2\<rparr>,
       deadUnitIds := deadUnitIds t @ [idU (?us ! l)], events := ?ev, draws := draws t + 2\<rparr>)"
  proof (cases first)
    case True
    with loc first show ?thesis unfolding w l
      by (simp add: fight_def handleCombat_def Let_def strike_def cong: option.case_cong)
  next
    case False
    with loc first show ?thesis unfolding w l
      by (simp add: fight_def handleCombat_def Let_def strike_def cong: option.case_cong)
  qed
  have ids1: "map idU ?us1 = map idU ?us"
    by (rule map_update_same) (simp add: strike_def)
  have ids2: "map idU ?us2 = map idU ?us1"
  proof (cases "findIndex (\<lambda>u. idU u = idU ?W) ?us1")
    case None then show ?thesis by simp
  next
    case (Some k)
    have "map idU (?us1[k := (\<lambda>u. u\<lparr>strength := strength ?W\<rparr>) (?us1 ! k)]) = map idU ?us1"
      by (rule map_update_same) simp
    with Some show ?thesis by simp
  qed
  have str: "strength (?us2 ! w) = strength ?W"
  proof (cases "findIndex (\<lambda>u. idU u = idU ?W) ?us1")
    case None then show ?thesis using wl by simp
  next
    case (Some k)
    then show ?thesis using wl by (cases "k = w") simp_all
  qed
  have dist: "?us2 = ?us1" if d: "distinct (map idU ?us)"
  proof -
    have "distinct (map idU ?us1)" using d ids1 by simp
    moreover have "idU ?W = idU (?us1 ! w)" using wl by simp
    ultimately have "findIndex (\<lambda>u. idU u = idU ?W) ?us1 = Some w"
      using findIndex_distinct[of idU ?us1 w] wl by simp
    then show ?thesis using wl by (simp add: strike_def list_update_same_conv)
  qed
  from f ids1 ids2 str dist show ?thesis by (simp add: strike_def)
qed

lemma fight_loc:
  "fight env i j t = Some t' \<Longrightarrow> \<exists>loc. map_of (nodes (st t)) (locationId (units (st t) ! i)) = Some loc"
  by (cases "map_of (nodes (st t)) (locationId (units (st t) ! i))")
     (simp_all add: fight_def handleCombat_def Let_def)

lemma arrival_training:
  assumes a: "arrival env i t = Some t'" and i: "i < length (units (st t))"
    and d: "distinct (map idU (units (st t)))" and k: "k < length (units (st t))"
    and tr: "isTraining (units (st t) ! k)" and al: "idU (units (st t) ! k) \<notin> set (deadUnitIds t)"
  shows "units (st t') ! k = units (st t) ! k \<and> idU (units (st t) ! k) \<notin> set (deadUnitIds t') \<and>
         map idU (units (st t')) = map idU (units (st t))"
  using a
proof (cases rule: arrival_cases)
  case skip then show ?thesis using al by simp
next
  case conquer
  from conquer_frame[OF conquer(5)] al show ?thesis by simp
next
  case (fight j)
  let ?us = "units (st t)"
  from findIndex_SomeD[OF fight(4)] have j: "j < length ?us" and nt: "\<not> isTraining (?us ! j)"
    by (simp_all add: isEnemyOf_def)
  from fight(3) tr nt have ne: "k \<noteq> i" "k \<noteq> j" by auto
  from fight_loc[OF fight(5)] obtain loc where
    loc: "map_of (nodes (st t)) (locationId (?us ! i)) = Some loc" by blast
  define first where "first =
      (fmul (fmul (random env (draws t)) (strength (?us ! i))) (unitMod loc (?us ! i))
         \<ge> fmul (fmul (random env (draws t + 1)) (strength (?us ! j))) (unitMod loc (?us ! j)))"
  define w where "w = (if first then i else j)"
  define l where "l = (if first then j else i)"
  from fight_result[OF loc i j first_def w_def l_def] fight(5) d
  have r: "deadUnitIds t' = deadUnitIds t @ [idU (?us ! l)]"
    "map idU (units (st t')) = map idU ?us"
    "units (st t') = ?us[w := strike (?us ! w) (unitMod loc (?us ! w))]"
    by auto
  have wl: "w \<noteq> k" "l \<noteq> k" "l < length ?us" using ne i j by (auto simp: w_def l_def)
  from wl(2,3) k d have "idU (?us ! l) \<noteq> idU (?us ! k)"
    by (metis length_map nth_eq_iff_index_eq nth_map)
  with r wl al show ?thesis by simp
qed

lemma arrivals_training:
  "arrivals env is t = Some t' \<Longrightarrow> \<forall>i \<in> set is. i < length (units (st t)) \<Longrightarrow>
   distinct (map idU (units (st t))) \<Longrightarrow> k < length (units (st t)) \<Longrightarrow>
   isTraining (units (st t) ! k) \<Longrightarrow> idU (units (st t) ! k) \<notin> set (deadUnitIds t) \<Longrightarrow>
   units (st t') ! k = units (st t) ! k \<and> idU (units (st t) ! k) \<notin> set (deadUnitIds t') \<and>
   map idU (units (st t')) = map idU (units (st t))"
proof (induction "is" arbitrary: t)
  case Nil then show ?case by simp
next
  case (Cons i "is")
  then obtain t1 where a: "arrival env i t = Some t1" and b: "arrivals env is t1 = Some t'"
    by (auto split: option.splits)
  from Cons.prems(2) have i: "i < length (units (st t))" by simp
  from arrival_training[OF a i Cons.prems(3,4,5,6)]
  have s: "units (st t1) ! k = units (st t) ! k" "idU (units (st t) ! k) \<notin> set (deadUnitIds t1)"
    "map idU (units (st t1)) = map idU (units (st t))" by simp_all
  from s(3) have len: "length (units (st t1)) = length (units (st t))"
    by (metis length_map)
  have "units (st t') ! k = units (st t1) ! k \<and> idU (units (st t1) ! k) \<notin> set (deadUnitIds t') \<and>
        map idU (units (st t')) = map idU (units (st t1))"
    using Cons.prems s len by (intro Cons.IH[OF b]) simp_all
  with s show ?case by simp
qed

lemma fight_dead: "fight env i j t = Some t' \<Longrightarrow> \<exists>x. deadUnitIds t' = deadUnitIds t @ [x]"
  by (cases "handleCombat env (draws t) (units (st t) ! i) (units (st t) ! j) (nodes (st t))")
     (auto simp: fight_def Let_def)

lemma arrival_dead_mono:
  assumes "arrival env i t = Some t'"
  shows "set (deadUnitIds t) \<subseteq> set (deadUnitIds t')"
  using assms
proof (cases rule: arrival_cases)
  case skip then show ?thesis by simp
next
  case (fight j) from fight_dead[OF fight(5)] show ?thesis by auto
next
  case conquer from conquer_frame[OF conquer(5)] show ?thesis by simp
qed

lemma arrivals_dead_mono:
  "arrivals env is t = Some t' \<Longrightarrow> set (deadUnitIds t) \<subseteq> set (deadUnitIds t')"
proof (induction "is" arbitrary: t)
  case Nil then show ?case by simp
next
  case (Cons i "is")
  then obtain t1 where a: "arrival env i t = Some t1" and b: "arrivals env is t1 = Some t'"
    by (auto split: option.splits)
  from arrival_dead_mono[OF a] Cons.IH[OF b] show ?case by blast
qed

lemma dead_purged:
  "arrivals env is t = Some t' \<Longrightarrow> x \<in> set (deadUnitIds t) \<Longrightarrow>
   \<forall>u \<in> set (units (st (purge t'))). idU u \<noteq> x"
  using arrivals_dead_mono[of env "is" t t'] by (auto simp: purge_fields)

subsection \<open>Training through a whole tick\<close>

lemma mapThrow_nth:
  "mapThrow g xs = Some ys \<Longrightarrow> length ys = length xs \<and> (\<forall>k < length xs. g (xs ! k) = Some (ys ! k))"
proof (induction xs arbitrary: ys)
  case Nil then show ?case by simp
next
  case (Cons x xs)
  then obtain y ys' where y: "g x = Some y" "mapThrow g xs = Some ys'" "ys = y # ys'"
    by (auto split: option.splits)
  from Cons.IH[OF y(2)] y(1,3) show ?case by (auto simp: nth_Cons split: nat.splits)
qed

lemma advanceUnit_id: "advanceUnit ns w u = Some u' \<Longrightarrow> idU u' = idU u"
  by (auto simp: advanceUnit_def moveUnit_def Let_def split: if_splits option.splits list.splits)

lemma advanceUnit_training:
  "isTraining u \<Longrightarrow> trainingProgress u < 100 \<Longrightarrow>
   advanceUnit ns w u = Some (u\<lparr>trainingProgress := trainingProgress u + 5\<rparr>)"
  by (simp add: advanceUnit_def TRAINING_SPEED_def)

lemma march_ids:
  assumes "mapThrow (advanceUnit ns w) xs = Some ys"
  shows "map idU ys = map idU xs"
proof -
  from mapThrow_nth[OF assms] advanceUnit_id
  have "length ys = length xs" "\<forall>k < length xs. idU (ys ! k) = idU (xs ! k)" by auto
  then show ?thesis by (simp add: list_eq_iff_nth_eq)
qed

lemma applyMove_keeps:
  assumes "\<exists>v \<in> set (units s). sameSoldier u v"
  shows "\<exists>v \<in> set (units (applyMove mv s)). sameSoldier u v"
proof -
  obtain unitId targetId where mv: "mv = (unitId, targetId)" by (cases mv)
  show ?thesis
  proof (cases "findIndex (\<lambda>u. idU u = unitId) (units s)")
    case None
    with assms mv show ?thesis by (simp add: applyMove_def)
  next
    case (Some i)
    from assms obtain v where v: "v \<in> set (units s)" "sameSoldier u v" by blast
    then obtain k where k: "k < length (units s)" "units s ! k = v" by (auto simp: in_set_conv_nth)
    let ?us = "(units s)[i := (units s ! i)\<lparr>destinationId := targetId, isMoving := True\<rparr>]"
    have "sameSoldier u (?us ! k)"
      using k v(2) by (cases "k = i") (simp_all add: sameSoldier_def)
    moreover have "?us ! k \<in> set ?us" using k(1) by simp
    ultimately show ?thesis using Some mv by (auto simp: applyMove_def)
  qed
qed

lemma applyMoves_keeps:
  "\<exists>v \<in> set (units s). sameSoldier u v \<Longrightarrow> \<exists>v \<in> set (units (applyMoves mvs s)). sameSoldier u v"
  by (induction mvs arbitrary: s) (simp_all add: applyMove_keeps)

lemma applyRecruitment_keeps:
  "applyRecruitment env rec (s, k) = Some (s', k') \<Longrightarrow> v \<in> set (units s) \<Longrightarrow> v \<in> set (units s')"
  by (cases rec) (auto simp: applyRecruitment_def Let_def split: option.splits if_splits)

lemma applyRecruitments_keeps:
  "applyRecruitments env recs (s, k) = Some (s', k') \<Longrightarrow> v \<in> set (units s) \<Longrightarrow> v \<in> set (units s')"
proof (induction recs arbitrary: s k)
  case Nil then show ?case by simp
next
  case (Cons r recs)
  then obtain s1 k1 where a: "applyRecruitment env r (s, k) = Some (s1, k1)"
    and b: "applyRecruitments env recs (s1, k1) = Some (s', k')"
    by (auto split: option.splits)
  from Cons.IH[OF b applyRecruitment_keeps[OF a Cons.prems(2)]] show ?case .
qed

lemma aiActions_keeps:
  assumes "aiActions env t = Some t'" "v \<in> set (units (st t))"
  shows "\<exists>v' \<in> set (units (st t')). sameSoldier v v'"
  using assms(1)
proof (cases rule: aiActions_cases)
  case idle
  with assms(2) show ?thesis by (auto simp: sameSoldier_def)
next
  case (acts recruitments moves d s1 k)
  from applyRecruitments_keeps[OF acts(2) assms(2)] have "\<exists>v' \<in> set (units s1). sameSoldier v v'"
    by (auto simp: sameSoldier_def)
  from applyMoves_keeps[OF this, of moves] acts(3) show ?thesis by simp
qed

lemma tick_training:
  assumes u: "updateGame env s = Some s'" and run: "hasStarted s" "gameSpeed s \<noteq> 0" "\<not> gameOver s"
    and d: "distinct (map idU (units s))" and k: "k < length (units s)"
    and tr: "isTraining (units s ! k)" "trainingProgress (units s ! k) < 100"
  shows "\<exists>v \<in> set (units s'). idU v = idU (units s ! k) \<and> strength v = strength (units s ! k) \<and>
           isTraining v \<and> trainingProgress v = trainingProgress (units s ! k) + 5"
  using u
proof (cases rule: updateGame_cases)
  case idle with run show ?thesis by simp
next
  case (run us t2 t3)
  let ?u = "units s ! k" and ?u' = "(units s ! k)\<lparr>trainingProgress := trainingProgress (units s ! k) + 5\<rparr>"
  from mapThrow_nth[OF run(4)] k advanceUnit_training[OF tr]
  have len: "length us = length (units s)" and uk: "us ! k = ?u'" by auto
  have ids: "map idU us = map idU (units s)" using run(4) by (rule march_ids)
  have m: "units (st (marched s us)) = us" "deadUnitIds (marched s us) = []"
    by (simp_all add: marched_fields)
  have "\<forall>i \<in> set [0..<length us]. i < length (units (st (marched s us)))" by (simp add: m)
  from arrivals_training[OF run(5) this, of k] d ids len k uk tr(1) m
  have a: "units (st t2) ! k = ?u'" "idU ?u' \<notin> set (deadUnitIds t2)"
    "map idU (units (st t2)) = map idU us" by simp_all
  from a(3) len k have "k < length (units (st t2))" by (metis length_map)
  from nth_mem[OF this] a(1,2) have "?u' \<in> set (units (st (purge t2)))" by (simp add: purge_fields)
  from aiActions_keeps[OF run(6) this] obtain v where
    v: "v \<in> set (units (st t3))" "sameSoldier ?u' v" by blast
  with run(7) tr(1) show ?thesis by (auto simp: sameSoldier_def finish_fields)
qed

subsection \<open>The numbers of a combat in a run\<close>

text \<open>
  \<open>combatInv\<close> holds in the initial state and is kept by every tick, at each step of its
  arrival loop, and by every command: units are created with strength 100, a winner is left
  with a double between 10 and 100, \<^verbatim>\<open>handleFortify\<close> stops at \<open>MAX_FORTIFICATION\<close> and a
  conquest resets the level to 0.
\<close>

lemma fit_100: "fit 100" and fit_10: "fit 10"
  using isDouble_int[of 100] isDouble_int[of 10] by (simp_all add: fit_def)

lemma fit_strike:
  assumes s: "fit s" and m: "1 \<le> m"
  shows "fit (max 10 (fsub s (fdiv 20 m)))"
proof (cases "fsub s (fdiv 20 m) \<le> 10")
  case True
  then have "max 10 (fsub s (fdiv 20 m)) = 10" by simp
  with fit_10 show ?thesis by simp
next
  case False
  define q where "q = fdiv 20 m"
  define x where "x = s - q"
  have fx: "fsub s (fdiv 20 m) = fl x" by (simp add: fsub_def x_def q_def)
  have big: "10 < fl x" using False fx by simp
  have q0: "0 \<le> q" unfolding q_def fdiv_def using m by (intro fl_nonneg) simp
  have h: "fl 100 = 100" "(100::real) < 2 powi 1024"
    using fit_100 by (simp_all add: fit_def isDouble_def)
  have "x \<le> 100" using s q0 by (simp add: x_def fit_def)
  from fl_le_double[OF h(1) _ h(2) this] have le: "fl x \<le> 100" by simp
  have x0: "0 < x"
  proof (rule ccontr)
    assume "\<not> 0 < x"
    then have "fl x \<le> 0" by (intro fl_nonpos) simp
    with big show False by simp
  qed
  with \<open>x \<le> 100\<close> h(2) have "\<bar>x\<bar> < 2 powi 1024" by simp
  from fl_fl[OF this] have "fl (fl x) = fl x" .
  moreover have "\<bar>fl x\<bar> < 2 powi 1024" using big le h(2) by simp
  ultimately have "isDouble (fl x)" by (simp add: isDouble_def)
  with big le have "fit (fl x)" by (simp add: fit_def)
  moreover have "max 10 (fl x) = fl x" using big by simp
  ultimately show ?thesis by (simp add: fx)
qed

lemma update_set:
  "(k', v') \<in> set (AList.update k v al) \<Longrightarrow> (k', v') \<in> set al \<or> (k', v') = (k, v)"
  by (induction al) (auto split: if_splits)

lemma walls_update:
  "walls ns \<Longrightarrow> 0 \<le> fortificationLevel v \<Longrightarrow> fortificationLevel v \<le> MAX_FORTIFICATION \<Longrightarrow>
   walls (AList.update k v ns)"
  unfolding walls_def using update_set[of _ _ k v ns] by blast

lemma walls_lookup:
  "walls ns \<Longrightarrow> map_of ns k = Some n \<Longrightarrow>
   0 \<le> fortificationLevel n \<and> fortificationLevel n \<le> MAX_FORTIFICATION"
  unfolding walls_def using map_of_SomeD[of ns k n] by blast

lemma walls_regen: "walls ns \<Longrightarrow> walls (regenNodes ns)"
  by (auto simp: walls_def regenNodes_def regenNode_def)

lemma conquer_walls:
  assumes "conquer i t = Some t'" "walls (nodes (st t))"
  shows "walls (nodes (st t'))"
proof (cases "map_of (nodes (st t)) (locationId (units (st t) ! i))")
  case None with assms(1) show ?thesis by (simp add: conquer_def Let_def)
next
  case (Some loc)
  have w: "walls (AList.update (idN loc) (loc\<lparr>ownerN := f, fortificationLevel := 0\<rparr>) (nodes (st t)))"
    for f using assms(2) by (intro walls_update) (simp_all add: MAX_FORTIFICATION_def)
  from assms Some w show ?thesis
    by (auto simp: conquer_def Let_def split: if_splits)
qed

lemma unitMod_walls:
  assumes "walls ns" "map_of ns k = Some loc"
  shows "1 \<le> unitMod loc u" "unitMod loc u \<le> 3"
proof -
  from walls_lookup[OF assms] have l: "0 \<le> fortificationLevel loc" "fortificationLevel loc \<le> 3"
    by (simp_all add: MAX_FORTIFICATION_def)
  then have b: "fortificationLevel loc < 2 ^ 52" by simp
  from unitMod_ge1[OF l(1) b] show "1 \<le> unitMod loc u" .
  from l show "unitMod loc u \<le> 3" by (simp add: unitMod_formula[OF l(1) b])
qed

lemma fight_strengths:
  assumes f: "fight env i j t = Some t'" and v: "v \<in> set (units (st t'))"
  shows "v \<in> set (units (st t)) \<or>
         (\<exists>loc w. (w = i \<or> w = j) \<and>
            map_of (nodes (st t)) (locationId (units (st t) ! i)) = Some loc \<and>
            strength v = max 10 (fsub (strength (units (st t) ! w))
                                   (fdiv 20 (unitMod loc (units (st t) ! w)))))"
proof -
  let ?us = "units (st t)"
  from fight_loc[OF f] obtain loc where
    loc: "map_of (nodes (st t)) (locationId (?us ! i)) = Some loc" by blast
  define first where "first =
      (fmul (fmul (random env (draws t)) (strength (?us ! i))) (unitMod loc (?us ! i))
         \<ge> fmul (fmul (random env (draws t + 1)) (strength (?us ! j))) (unitMod loc (?us ! j)))"
  define w where "w = (if first then i else j)"
  let ?W = "strike (?us ! w) (unitMod loc (?us ! w))"
  let ?us1 = "?us[w := ?W]"
  let ?us2 = "(case findIndex (\<lambda>u. idU u = idU ?W) ?us1 of None \<Rightarrow> ?us1
               | Some winnerIndex \<Rightarrow> ?us1[winnerIndex := (?us1 ! winnerIndex)\<lparr>strength := strength ?W\<rparr>])"
  define l where "l = (if first then j else i)"
  let ?flavor = "battleReport env (locationName (nodes (st t)) (locationId ?W)) (ownerU ?W) (ownerU (?us ! l))"
  let ?ev = "if playerFaction (st t) = SPECTATOR \<or> ownerU ?W = playerFaction (st t)
                \<or> ownerU (?us ! l) = playerFaction (st t)
             then events t @ [?flavor] else events t"
  have F: "fight env i j t = Some (t\<lparr>st := (st t)\<lparr>units := ?us2\<rparr>,
       deadUnitIds := deadUnitIds t @ [idU (?us ! l)], events := ?ev, draws := draws t + 2\<rparr>)"
  proof (cases first)
    case True
    with loc first_def show ?thesis unfolding w_def l_def
      by (simp add: fight_def handleCombat_def Let_def strike_def cong: option.case_cong)
  next
    case False
    with loc first_def show ?thesis unfolding w_def l_def
      by (simp add: fight_def handleCombat_def Let_def strike_def cong: option.case_cong)
  qed
  from F obtain X where X: "fight env i j t = Some X" "units (st X) = ?us2" by simp
  from f X(1) have "t' = X" by simp
  with X(2) have u2: "units (st t') = ?us2" by (simp only:)
  have a: "x \<in> set ?us \<or> strength x = strength ?W" if "x \<in> set ?us1" for x
    using that set_update_subset_insert[of ?us w ?W] by auto
  have b: "x \<in> set ?us \<or> strength x = strength ?W" if "x \<in> set ?us2" for x
  proof (cases "findIndex (\<lambda>u. idU u = idU ?W) ?us1")
    case None with that a show ?thesis by simp
  next
    case (Some k)
    with that have "x \<in> set (?us1[k := (?us1 ! k)\<lparr>strength := strength ?W\<rparr>])" by simp
    with set_update_subset_insert[of ?us1 k "(?us1 ! k)\<lparr>strength := strength ?W\<rparr>"]
    have "x \<in> set ?us1 \<or> x = (?us1 ! k)\<lparr>strength := strength ?W\<rparr>" by auto
    with a show ?thesis by auto
  qed
  from b[of v] v u2 have "v \<in> set ?us \<or> strength v = strength ?W" by simp
  moreover have "w = i \<or> w = j" by (simp add: w_def)
  ultimately show ?thesis using loc by (auto simp: strike_def)
qed

lemma fight_combat:
  assumes f: "fight env i j t = Some t'" and i: "i < length (units (st t))"
    and j: "j < length (units (st t))" and c: "combatInv (st t)"
  shows "combatInv (st t')"
proof -
  let ?us = "units (st t)"
  have w: "walls (nodes (st t'))" using fight_nodes[OF f] c by (simp add: combatInv_def)
  have "fit (strength v)" if v: "v \<in> set (units (st t'))" for v
  proof -
    from fight_strengths[OF f v] consider "v \<in> set ?us"
      | loc w where "w = i \<or> w = j" "map_of (nodes (st t)) (locationId (?us ! i)) = Some loc"
          "strength v = max 10 (fsub (strength (?us ! w)) (fdiv 20 (unitMod loc (?us ! w))))"
      by blast
    then show ?thesis
    proof cases
      case 1 with c show ?thesis by (simp add: combatInv_def)
    next
      case (2 loc w)
      from 2(1) i j have "?us ! w \<in> set ?us" by auto
      with c have "fit (strength (?us ! w))" by (simp add: combatInv_def)
      moreover from c 2(2) have "1 \<le> unitMod loc (?us ! w)"
        by (intro unitMod_walls(1)[of "nodes (st t)"]) (simp_all add: combatInv_def)
      ultimately show ?thesis unfolding 2(3) by (rule fit_strike)
    qed
  qed
  with w show ?thesis by (simp add: combatInv_def)
qed

lemma conquer_combat:
  assumes "conquer i t = Some t'" "combatInv (st t)"
  shows "combatInv (st t')"
  using conquer_walls[OF assms(1)] conquer_frame[OF assms(1)] assms(2)
  by (simp add: combatInv_def)

lemma arrival_combat:
  assumes a: "arrival env i t = Some t'" and i: "i < length (units (st t))" and c: "combatInv (st t)"
  shows "combatInv (st t')"
  using a
proof (cases rule: arrival_cases)
  case skip with c show ?thesis by simp
next
  case (fight j)
  from findIndex_SomeD[OF fight(4)] have "j < length (units (st t))" by simp
  from fight_combat[OF fight(5) i this c] show ?thesis .
next
  case conquer
  from conquer_combat[OF conquer(5) c] show ?thesis .
qed

lemma arrivals_combat:
  "arrivals env is t = Some t' \<Longrightarrow> \<forall>i \<in> set is. i < length (units (st t)) \<Longrightarrow>
   combatInv (st t) \<Longrightarrow> combatInv (st t')"
proof (induction "is" arbitrary: t)
  case Nil then show ?case by simp
next
  case (Cons i "is")
  then obtain t1 where a: "arrival env i t = Some t1" and b: "arrivals env is t1 = Some t'"
    by (auto split: option.splits)
  from Cons.prems(2) have i: "i < length (units (st t))" by simp
  from arrival_frame[OF a] have "length (units (st t1)) = length (units (st t))" by simp
  with Cons.prems(2) have "\<forall>i \<in> set is. i < length (units (st t1))" by simp
  from Cons.IH[OF b this arrival_combat[OF a i Cons.prems(3)]] show ?case .
qed

lemma advanceUnit_strength: "advanceUnit ns w u = Some u' \<Longrightarrow> strength u' = strength u"
  by (auto simp: advanceUnit_def moveUnit_def Let_def split: if_splits option.splits list.splits)

lemma mapThrow_strengths:
  assumes "mapThrow g xs = Some ys" "\<And>x y. g x = Some y \<Longrightarrow> strength y = strength x"
  shows "map strength ys = map strength xs"
proof -
  from mapThrow_nth[OF assms(1)] assms(2)
  have "length ys = length xs" "\<forall>k < length xs. strength (ys ! k) = strength (xs ! k)" by auto
  then show ?thesis by (simp add: list_eq_iff_nth_eq)
qed

lemma fit_map:
  "map strength ys = map strength xs \<Longrightarrow> \<forall>u \<in> set xs. fit (strength u) \<Longrightarrow>
   \<forall>u \<in> set ys. fit (strength u)"
proof -
  assume a: "map strength ys = map strength xs" and b: "\<forall>u \<in> set xs. fit (strength u)"
  from b have "\<forall>x \<in> set (map strength xs). fit x" by simp
  with a have "\<forall>x \<in> set (map strength ys). fit x" by simp
  then show ?thesis by simp
qed

lemma marched_combat:
  assumes "combatInv s"
    and "mapThrow (advanceUnit ns w) (units s) = Some us"
  shows "combatInv (st (marched s us))"
proof -
  from mapThrow_strengths[OF assms(2)] advanceUnit_strength
  have "map strength us = map strength (units s)" by blast
  from fit_map[OF this] assms(1) have "\<forall>u \<in> set us. fit (strength u)" by (simp add: combatInv_def)
  with assms(1) show ?thesis by (simp add: combatInv_def marched_fields walls_regen)
qed

lemma purge_combat: "combatInv (st t) \<Longrightarrow> combatInv (st (purge t))"
  by (simp add: combatInv_def purge_fields)

lemma newUnit_fit: "fit (strength (newUnit uid f ty k))"
  by (simp add: newUnit_def UNIT_STRENGTH_ARMY_def fit_100)

lemma applyRecruitment_combat:
  assumes "applyRecruitment env rec (s, k) = Some (s', k')" "combatInv s"
  shows "combatInv s'"
proof -
  obtain nodeId ty where rec: "rec = (nodeId, ty)" by (cases rec)
  show ?thesis
  proof (cases "map_of (nodes s) nodeId")
    case None with assms(1) rec show ?thesis by (simp add: applyRecruitment_def)
  next
    case (Some node)
    from assms(2) have w: "walls (nodes s)" by (simp add: combatInv_def)
    from walls_lookup[OF w Some]
    have "walls (AList.update nodeId (node\<lparr>localManpower := m\<rparr>) (nodes s))" for m
      using w by (intro walls_update) simp_all
    with assms Some rec show ?thesis
      by (auto simp: applyRecruitment_def Let_def combatInv_def newUnit_fit split: if_splits)
  qed
qed

lemma applyRecruitments_combat:
  "applyRecruitments env recs (s, k) = Some (s', k') \<Longrightarrow> combatInv s \<Longrightarrow> combatInv s'"
proof (induction recs arbitrary: s k)
  case Nil then show ?case by simp
next
  case (Cons r recs)
  then obtain s1 k1 where a: "applyRecruitment env r (s, k) = Some (s1, k1)"
    and b: "applyRecruitments env recs (s1, k1) = Some (s', k')"
    by (auto split: option.splits)
  from Cons.IH[OF b applyRecruitment_combat[OF a Cons.prems(2)]] show ?case .
qed

lemma applyMove_combat: "combatInv s \<Longrightarrow> combatInv (applyMove mv s)"
proof -
  assume c: "combatInv s"
  obtain unitId targetId where mv: "mv = (unitId, targetId)" by (cases mv)
  show ?thesis
  proof (cases "findIndex (\<lambda>u. idU u = unitId) (units s)")
    case None with c mv show ?thesis by (simp add: applyMove_def)
  next
    case (Some i)
    let ?v = "(units s ! i)\<lparr>destinationId := targetId, isMoving := True\<rparr>"
    from findIndex_SomeD[OF Some] have "units s ! i \<in> set (units s)" by simp
    with c have "fit (strength ?v)" by (simp add: combatInv_def)
    moreover have "set ((units s)[i := ?v]) \<subseteq> insert ?v (set (units s))"
      by (rule set_update_subset_insert)
    ultimately have "\<forall>u \<in> set ((units s)[i := ?v]). fit (strength u)"
      using c by (auto simp: combatInv_def)
    with c Some mv show ?thesis by (simp add: applyMove_def combatInv_def)
  qed
qed

lemma applyMoves_combat: "combatInv s \<Longrightarrow> combatInv (applyMoves mvs s)"
  by (induction mvs arbitrary: s) (simp_all add: applyMove_combat)

lemma aiActions_combat:
  assumes "aiActions env t = Some t'" "combatInv (st t)"
  shows "combatInv (st t')"
  using assms(1)
proof (cases rule: aiActions_cases)
  case idle with assms(2) show ?thesis by simp
next
  case (acts recruitments moves d s1 k)
  from applyMoves_combat[OF applyRecruitments_combat[OF acts(2) assms(2)], of moves] acts(3)
  show ?thesis by simp
qed

lemma updateGame_combat:
  assumes "updateGame env s = Some s'" "combatInv s"
  shows "combatInv s'"
  using assms(1)
proof (cases rule: updateGame_cases)
  case idle with assms(2) show ?thesis by simp
next
  case (run us t2 t3)
  have "\<forall>i \<in> set [0..<length us]. i < length (units (st (marched s us)))"
    by (simp add: marched_fields)
  from arrivals_combat[OF run(5) this marched_combat[OF assms(2) run(4)]]
  have "combatInv (st t2)" .
  from aiActions_combat[OF run(6) purge_combat[OF this]] run(7) show ?thesis
    by (simp add: combatInv_def finish_fields)
qed

lemma rallyUnit_strength: "rallyUnit prev k f u = Some u' \<Longrightarrow> strength u' = strength u"
  by (auto simp: rallyUnit_def split: if_splits option.splits bool.splits PathResult.splits list.splits)

lemma haltUnit_strength: "strength (haltUnit f k u) = strength u"
  by (simp add: haltUnit_def)

lemma order_strengths:
  "map strength (map (\<lambda>u. if P u then u\<lparr>destinationId := a, path := b, isMoving := True\<rparr> else u) us)
     = map strength us"
  by (induction us) simp_all

lemma handleNodeClick_strengths:
  "handleNodeClick k s = Some s' \<Longrightarrow> map strength (units s') = map strength (units s)"
  unfolding handleNodeClick_def Let_def
  by (auto simp: addLog_def order_strengths simp del: map_map
           split: if_splits option.splits PathResult.splits list.splits)

lemma handleRally_strengths:
  assumes "handleRally s = Some s'"
  shows "map strength (units s') = map strength (units s)"
proof (cases "selectedNodeId s")
  case None with assms show ?thesis by (simp add: handleRally_def truthy_def)
next
  case (Some k)
  show ?thesis
  proof (cases "truthy (selectedNodeId s)")
    case False with assms show ?thesis by (simp add: handleRally_def)
  next
    case True
    with assms Some obtain us where us: "mapThrow (rallyUnit s k (playerFaction s)) (units s) = Some us"
      "s' = addLog ''Rallying reserves!'' (s\<lparr>units := us\<rparr>)"
      by (auto simp: handleRally_def split: option.splits)
    from mapThrow_strengths[OF us(1)] rallyUnit_strength
    have "map strength us = map strength (units s)" by blast
    with us(2) show ?thesis by (simp add: addLog_def)
  qed
qed

lemma handleHalt_strengths: "map strength (units (handleHalt s)) = map strength (units s)"
  unfolding handleHalt_def
  by (auto simp: addLog_def o_def haltUnit_strength split: option.splits)

lemma command_combat:
  assumes c: "combatInv s" and ids: "idsOK (nodes s)" and cmd: "command cm s = Some s'"
  shows "combatInv s'"
proof -
  have same: "combatInv s'" if "nodes s' = nodes s" "map strength (units s') = map strength (units s)"
    using c that fit_map[OF that(2)] by (simp add: combatInv_def)
  show ?thesis
  proof (cases cm)
    case (StartGame f) with cmd show ?thesis by (intro same) (auto simp: startGame_def)
  next
    case (NodeClick k)
    with cmd handleNodeClick_world[of k s s'] handleNodeClick_strengths[of k s s'] show ?thesis
      by (intro same) (simp_all add: sameWorld_def)
  next
    case (Recruit uid ty)
    with cmd have "handleRecruit uid ty s = Some s'" by simp
    then show ?thesis
    proof (cases rule: handleRecruit_cases)
      case rejected with c show ?thesis by simp
    next
      case (recruited sel node n)
      from c have w: "walls (nodes s)" by (simp add: combatInv_def)
      from walls_lookup[OF w recruited(5)]
      have "walls (AList.update (idN node) (n\<lparr>localManpower := m\<rparr>) (nodes s))" for m
        using w by (intro walls_update) simp_all
      with c show ?thesis by (simp add: recruited(8) combatInv_def newUnit_fit)
    qed
  next
    case Fortify
    with cmd have "handleFortify s = Some s'" by simp
    then show ?thesis
    proof (cases rule: handleFortify_cases)
      case rejected with c show ?thesis by simp
    next
      case (fortified sel node n)
      from c have w: "walls (nodes s)" by (simp add: combatInv_def)
      from idsOK_lookup[OF ids fortified(3)] fortified(3,4) have "n = node" by simp
      with walls_lookup[OF w fortified(4)] fortified(6)
      have "0 \<le> fortificationLevel n + 1" "fortificationLevel n + 1 \<le> MAX_FORTIFICATION"
        by simp_all
      then have "walls (AList.update (idN node) (n\<lparr>fortificationLevel := fortificationLevel n + 1\<rparr>)
                    (nodes s))"
        using w by (intro walls_update) simp_all
      with c show ?thesis by (simp add: fortified(7) combatInv_def)
    qed
  next
    case Rally
    with cmd handleRally_world[of s s'] handleRally_strengths[of s s'] show ?thesis
      by (intro same) (simp_all add: sameWorld_def)
  next
    case Halt
    with cmd handleHalt_world[of s] handleHalt_strengths[of s] show ?thesis
      by (intro same) (auto simp: sameWorld_def)
  next
    case EnterMoveMode with cmd show ?thesis
      by (intro same) (auto simp: enterMoveMode_def addLog_def)
  next
    case PauseToggle with cmd show ?thesis by (intro same) (auto simp: pauseToggle_def)
  next
    case (AddLog msg) with cmd show ?thesis by (intro same) (auto simp: addLog_def)
  next
    case (SetMapImage img) with cmd show ?thesis by (intro same) auto
  next
    case (SetStartScreenImage img) with cmd show ?thesis by (intro same) auto
  qed
qed

lemma combatInv_init: "combatInv initialApp"
  by (simp add: combatInv_def walls_def initialApp_def INITIAL_NODES_def createNode_def
        MAX_FORTIFICATION_def)

lemma reachable_combat: "reachable s \<Longrightarrow> combatInv s"
proof (induction rule: reachable.induct)
  case init show ?case by (rule combatInv_init)
next
  case (tick s env s')
  from updateGame_combat[OF tick(3) tick(4)] show ?case .
next
  case (cmd s c s')
  from command_combat[OF cmd(3) worldInv_nodes(1)[OF reachable_inv[OF cmd(1)]] cmd(2)] show ?case .
qed

lemma loop_combat:
  assumes "reachable s"
    and "mapThrow (advanceUnit (regenNodes (nodes s)) (winterOn (dayOfYear (day s + 1)))) (units s) = Some us"
    and "arrivals env is (marched s us) = Some t" and "\<forall>i \<in> set is. i < length us"
  shows "combatInv (st t)"
proof -
  from assms(4) have "\<forall>i \<in> set is. i < length (units (st (marched s us)))"
    by (simp add: marched_fields)
  from arrivals_combat[OF assms(3) this marched_combat[OF reachable_combat[OF assms(1)] assms(2)]]
  show ?thesis .
qed

lemma combat_sides:
  assumes c: "combatInv s" and loc: "map_of (nodes s) k = Some loc" and u: "u \<in> set (units s)"
  shows "0 \<le> fortificationLevel loc \<and> fortificationLevel loc < 2 ^ 52 \<and>
         isDouble (strength u) \<and> 1 \<le> strength u \<and> strength u * unitMod loc u < 2 powi 1024"
proof -
  from c have w: "walls (nodes s)" and f: "fit (strength u)" using u by (simp_all add: combatInv_def)
  from walls_lookup[OF w loc] have l: "0 \<le> fortificationLevel loc" "fortificationLevel loc \<le> 3"
    by (simp_all add: MAX_FORTIFICATION_def)
  from f have s: "isDouble (strength u)" "10 \<le> strength u" "strength u \<le> 100"
    by (simp_all add: fit_def)
  from unitMod_walls[OF w loc, of u] have m: "1 \<le> unitMod loc u" "unitMod loc u \<le> 3" .
  have "strength u * unitMod loc u \<le> 100 * 3" using s m by (intro mult_mono) simp_all
  moreover have "(300::real) < 2 powi 9" by simp
  moreover have "(2::real) powi 9 < 2 powi 1024" by (simp only: p2_less)
  ultimately have "strength u * unitMod loc u < 2 powi 1024" by linarith
  with l s show ?thesis by simp
qed

subsection \<open>Routes\<close>

lemma route_snoc:
  "route ns us f a (p @ [b]) \<longleftrightarrow> route ns us f a p \<and> traversable ns us f (last (a # p)) b"
  by (induction p arbitrary: a) auto

lemma wfNodes_conn:
  "wfNodes ns \<Longrightarrow> map_of ns k = Some n \<Longrightarrow> c \<in> set (connections n) \<Longrightarrow> \<exists>nb. map_of ns c = Some nb"
proof -
  assume w: "wfNodes ns" and m: "map_of ns k = Some n" and c: "c \<in> set (connections n)"
  from map_of_SomeD[OF m] w c have "c \<in> fst ` set ns" by (auto simp: wfNodes_def)
  then have "map_of ns c \<noteq> None" by (simp add: map_of_eq_None_iff)
  then show ?thesis by auto
qed

lemma expand_ok:
  assumes "wfNodes ns" "map_of ns i = Some node" "route ns us f start p" "last (start # p) = i"
  shows "set cs \<subseteq> set (connections node) \<Longrightarrow> \<forall>e \<in> set q. entryOK ns us f start e \<Longrightarrow>
         \<exists>q' v' new. expand ns us f node p cs (q, v) = Some (q', v') \<and> q' = q @ new \<and>
            (\<forall>e \<in> set q'. entryOK ns us f start e) \<and> set v \<subseteq> set v'"
proof (induction cs arbitrary: q v)
  case Nil
  then show ?case by simp
next
  case (Cons c cs)
  from Cons.prems(1) have c: "c \<in> set (connections node)" and cs: "set cs \<subseteq> set (connections node)"
    by simp_all
  from wfNodes_conn[OF assms(1,2) c] obtain nb where nb: "map_of ns c = Some nb" by blast
  let ?push = "expand ns us f node p cs (q @ [(c, p @ [c])], c # v)"
  have pushed: "\<exists>q' v' new. ?push = Some (q', v') \<and> q' = q @ new \<and>
            (\<forall>e \<in> set q'. entryOK ns us f start e) \<and> set v \<subseteq> set v'"
    if t: "traversable ns us f i c"
  proof -
    have "entryOK ns us f start (c, p @ [c])"
      using assms(3,4) t nb by (simp add: entryOK_def route_snoc)
    with Cons.prems(2) have "\<forall>e \<in> set (q @ [(c, p @ [c])]). entryOK ns us f start e" by simp
    from Cons.IH[OF cs this, of "c # v"] show ?thesis by auto
  qed
  have skipped: "\<exists>q' v' new. expand ns us f node p cs (q, v) = Some (q', v') \<and> q' = q @ new \<and>
            (\<forall>e \<in> set q'. entryOK ns us f start e) \<and> set v \<subseteq> set v'"
    using Cons.IH[OF cs Cons.prems(2)] by simp
  show ?case
  proof (cases "c \<in> set v")
    case True with skipped show ?thesis by simp
  next
    case nv: False
    show ?thesis
    proof (cases "typeN node \<noteq> SEA \<and> typeN nb = SEA \<and> \<not> hasFleet us f c")
      case True with nv nb skipped show ?thesis by simp
    next
      case False
      then have "traversable ns us f i c"
        using assms(2) nb c by (auto simp: traversable_def)
      from pushed[OF this] nv nb False show ?thesis by (cases "typeN node = SEA") auto
    qed
  qed
qed

lemma bfs_sound_total:
  "\<forall>e \<in> set queue. entryOK ns us f start e \<Longrightarrow> wfNodes ns \<Longrightarrow>
   \<exists>r. bfs ns us f endId queue visited = Some r \<and>
       (\<forall>p. r = Path p \<longrightarrow> route ns us f start p \<and> last (start # p) = endId)"
proof (induction ns us f endId queue visited rule: bfs.induct)
  case (1 ns us faction endId visited)
  then show ?case by simp
next
  case (2 ns us faction endId i p queue visited)
  from "2.prems"(1) have e: "entryOK ns us faction start (i, p)"
    and q: "\<forall>e \<in> set queue. entryOK ns us faction start e" by simp_all
  show ?case
  proof (cases "i = endId")
    case True
    with e show ?thesis by (simp add: entryOK_def)
  next
    case False
    from e obtain node where node: "map_of ns i = Some node" by (auto simp: entryOK_def)
    from e have r: "route ns us faction start p" "last (start # p) = i" by (simp_all add: entryOK_def)
    from expand_ok[OF "2.prems"(2) node r subset_refl q, of visited]
    obtain q' v' where x: "expand ns us faction node p (connections node) (queue, visited) = Some (q', v')"
      and ok: "\<forall>e \<in> set q'. entryOK ns us faction start e" by blast
    from "2.IH"[OF False node x refl ok "2.prems"(2)] False node x show ?thesis by simp
  qed
qed

lemma expand_finds:
  assumes "wfNodes ns" "map_of ns i = Some node" "route ns us f start p" "last (start # p) = i"
    and t: "traversable ns us f i endId"
  shows "set cs \<subseteq> set (connections node) \<Longrightarrow> endId \<in> set cs \<Longrightarrow> endId \<notin> set v \<Longrightarrow>
         \<forall>e \<in> set q. entryOK ns us f start e \<and> fst e \<noteq> endId \<Longrightarrow>
         \<exists>q' v' pre post. expand ns us f node p cs (q, v) = Some (q', v') \<and>
            q' = pre @ (endId, p @ [endId]) # post \<and>
            (\<forall>e \<in> set pre. entryOK ns us f start e \<and> fst e \<noteq> endId) \<and>
            (\<forall>e \<in> set post. entryOK ns us f start e)"
proof (induction cs arbitrary: q v)
  case Nil
  then show ?case by simp
next
  case (Cons c cs)
  from Cons.prems(1) have c: "c \<in> set (connections node)" and cs: "set cs \<subseteq> set (connections node)"
    by simp_all
  from wfNodes_conn[OF assms(1,2) c] obtain nb where nb: "map_of ns c = Some nb" by blast
  have qok: "\<forall>e \<in> set q. entryOK ns us f start e" using Cons.prems(4) by simp
  show ?case
  proof (cases "c = endId")
    case True
    have e: "entryOK ns us f start (endId, p @ [endId])"
      using assms(3,4) t nb True by (simp add: entryOK_def route_snoc)
    with qok have "\<forall>e \<in> set (q @ [(endId, p @ [endId])]). entryOK ns us f start e" by simp
    from expand_ok[OF assms(1-4) cs this, of "endId # v"] obtain q' v' new where
      x: "expand ns us f node p cs (q @ [(endId, p @ [endId])], endId # v) = Some (q', v')"
         "q' = (q @ [(endId, p @ [endId])]) @ new" "\<forall>e \<in> set q'. entryOK ns us f start e"
      by blast
    from t assms(2) nb True have go: "typeN node \<noteq> SEA \<longrightarrow> \<not> (typeN nb = SEA \<and> \<not> hasFleet us f c)"
      by (auto simp: traversable_def)
    from x(2) have q': "q' = q @ (endId, p @ [endId]) # new" by simp
    moreover from x(3) q' have "\<forall>e \<in> set new. entryOK ns us f start e" by simp
    moreover have "expand ns us f node p (c # cs) (q, v) = Some (q', v')"
      using Cons.prems(3) True nb go x(1) by (cases "typeN node = SEA") auto
    ultimately show ?thesis using Cons.prems(4) by blast
  next
    case False
    with Cons.prems(2) have m: "endId \<in> set cs" by simp
    have skipped: ?thesis if "expand ns us f node p (c # cs) (q, v) = expand ns us f node p cs (q, v)"
      using Cons.IH[OF cs m Cons.prems(3,4)] that by simp
    have pushed: ?thesis
      if "expand ns us f node p (c # cs) (q, v)
            = expand ns us f node p cs (q @ [(c, p @ [c])], c # v)" "traversable ns us f i c"
    proof -
      have "entryOK ns us f start (c, p @ [c])"
        using assms(3,4) that(2) nb by (simp add: entryOK_def route_snoc)
      with Cons.prems(4) False
      have "\<forall>e \<in> set (q @ [(c, p @ [c])]). entryOK ns us f start e \<and> fst e \<noteq> endId" by simp
      moreover have "endId \<notin> set (c # v)" using False Cons.prems(3) by simp
      ultimately show ?thesis using Cons.IH[OF cs m, of "c # v" "q @ [(c, p @ [c])]"] that(1)
        by simp
    qed
    show ?thesis
    proof (cases "c \<in> set v")
      case True then show ?thesis by (intro skipped) simp
    next
      case nv: False
      show ?thesis
      proof (cases "typeN node \<noteq> SEA \<and> typeN nb = SEA \<and> \<not> hasFleet us f c")
        case True with nv nb show ?thesis by (intro skipped) simp
      next
        case False
        then have "traversable ns us f i c"
          using assms(2) nb c by (auto simp: traversable_def)
        moreover have "expand ns us f node p (c # cs) (q, v)
            = expand ns us f node p cs (q @ [(c, p @ [c])], c # v)"
          using nv nb False by (cases "typeN node = SEA") auto
        ultimately show ?thesis by (intro pushed)
      qed
    qed
  qed
qed

lemma bfs_prefix:
  "wfNodes ns \<Longrightarrow> \<forall>e \<in> set pre. entryOK ns us f start e \<and> fst e \<noteq> endId \<Longrightarrow>
   \<forall>e \<in> set ((endId, p) # post). entryOK ns us f start e \<Longrightarrow>
   bfs ns us f endId (pre @ (endId, p) # post) v = Some (Path p)"
proof (induction pre arbitrary: post v)
  case Nil
  then show ?case by simp
next
  case (Cons e pre)
  obtain i pi where e: "e = (i, pi)" by (cases e)
  from Cons.prems(2) e have ok: "entryOK ns us f start (i, pi)" "i \<noteq> endId"
    and pre: "\<forall>e \<in> set pre. entryOK ns us f start e \<and> fst e \<noteq> endId" by simp_all
  from ok(1) obtain node where node: "map_of ns i = Some node" by (auto simp: entryOK_def)
  from ok(1) have r: "route ns us f start pi" "last (start # pi) = i" by (simp_all add: entryOK_def)
  have all: "\<forall>e \<in> set (pre @ (endId, p) # post). entryOK ns us f start e"
    using pre Cons.prems(3) by auto
  from expand_ok[OF Cons.prems(1) node r subset_refl all, of v] obtain q' v' new where
    x: "expand ns us f node pi (connections node) (pre @ (endId, p) # post, v) = Some (q', v')"
       "q' = (pre @ (endId, p) # post) @ new" "\<forall>e \<in> set q'. entryOK ns us f start e"
    by blast
  from x(2,3) have "\<forall>e \<in> set ((endId, p) # post @ new). entryOK ns us f start e" by simp
  from Cons.IH[OF Cons.prems(1) pre this, of v']
  have "bfs ns us f endId (pre @ (endId, p) # post @ new) v' = Some (Path p)" .
  with x(1,2) ok(2) node e show ?case by simp
qed

lemma findPath_direct:
  assumes "wfNodes (nodes s)" "a \<noteq> b" "traversable (nodes s) (units s) f a b"
  shows "findPath a b f s = Some (Path [b])"
proof -
  from assms(3) obtain node where node: "map_of (nodes s) a = Some node" "b \<in> set (connections node)"
    by (auto simp: traversable_def split: option.splits)
  have "\<forall>e \<in> set []. entryOK (nodes s) (units s) f a e \<and> fst e \<noteq> b" by simp
  from expand_finds[OF assms(1) node(1) _ _ assms(3) subset_refl node(2) _ this, of "[]" "[a]"] assms(2)
  obtain q' v' pre post where
    x: "expand (nodes s) (units s) f node [] (connections node) ([], [a]) = Some (q', v')"
       "q' = pre @ (b, [b]) # post"
       "\<forall>e \<in> set pre. entryOK (nodes s) (units s) f a e \<and> fst e \<noteq> b"
       "\<forall>e \<in> set post. entryOK (nodes s) (units s) f a e"
    by auto
  have "entryOK (nodes s) (units s) f a (b, [b])"
    using assms(3) by (auto simp: entryOK_def traversable_def split: option.splits)
  with x(4) have "\<forall>e \<in> set ((b, [b]) # post). entryOK (nodes s) (units s) f a e" by simp
  from bfs_prefix[OF assms(1) x(3) this, of v']
  have "bfs (nodes s) (units s) f b q' v' = Some (Path [b])" by (simp add: x(2))
  with x(1) node(1) assms(2) show ?thesis by (simp add: findPath_def)
qed

lemma findPath_sound_total:
  assumes "wfNodes (nodes s)" "map_of (nodes s) a \<noteq> None"
  shows "\<exists>r. findPath a b f s = Some r \<and>
           (\<forall>p. r = Path p \<longrightarrow> route (nodes s) (units s) f a p \<and> last (a # p) = b)"
proof (cases "a = b")
  case True then show ?thesis by (simp add: findPath_def)
next
  case False
  have "\<forall>e \<in> set [(a, [])]. entryOK (nodes s) (units s) f a e"
    using assms(2) by (simp add: entryOK_def)
  from bfs_sound_total[OF this assms(1), of b "[a]"] False show ?thesis
    by (simp add: findPath_def)
qed

lemma route_stays_on_land:
  "route ns us f a p \<Longrightarrow> \<forall>k. \<not> hasFleet us f k \<Longrightarrow> map_option typeN (map_of ns a) \<noteq> Some SEA \<Longrightarrow>
   map_option typeN (map_of ns (last (a # p))) \<noteq> Some SEA"
proof (induction p arbitrary: a)
  case Nil then show ?case by simp
next
  case (Cons b p)
  from Cons.prems have "traversable ns us f a b" "route ns us f b p" by simp_all
  with Cons.prems(2,3) have "map_option typeN (map_of ns b) \<noteq> Some SEA"
    by (auto simp: traversable_def split: option.splits)
  from Cons.IH[OF \<open>route ns us f b p\<close> Cons.prems(2) this] show ?case by simp
qed

lemma wfNodes_statics: "wfNodes (statics ns) = wfNodes ns"
proof -
  have "fst ` set (statics ns) = fst ` set ns"
    using statics_keys[of ns] by (metis list.set_map)
  moreover have "(\<forall>(k, n) \<in> set (statics ns). P (connections n)) = (\<forall>(k, n) \<in> set ns. P (connections n))" for P
    by (auto simp: statics_def nodeStatic_fields)
  ultimately show ?thesis unfolding wfNodes_def by simp
qed

lemma INITIAL_NODES_wf: "wfNodes INITIAL_NODES"
  by (simp add: wfNodes_def INITIAL_NODES_def createNode_def)

lemma reachable_wfNodes: "reachable s \<Longrightarrow> wfNodes (nodes s)"
  using reachable_inv[of s] INITIAL_NODES_wf wfNodes_statics
  unfolding worldInv_def by metis

subsection \<open>The friction test of the AI\<close>

lemma aiMoveUnit_friction:
  assumes "map_of (nodes s) (locationId unit) = Some node"
    and "validNeighbors s f unit (connections node) = Some vs" "vs \<noteq> []"
  shows "\<exists>target d1. (d1 = d \<or> d1 = d + 1) \<and>
           aiMoveUnit env s f unit d
             = Some (if issuesMove (random env d1) then [(idU unit, target)] else [], d1 + 1)"
proof -
  let ?enemy = "find (\<lambda>nid. ownerAt (nodes s) nid \<noteq> Some f \<and> ownerAt (nodes s) nid \<noteq> Some NEUTRAL) vs"
  let ?neutral = "find (\<lambda>nid. ownerAt (nodes s) nid = Some NEUTRAL) vs"
  let ?td = "if truthy ?enemy then (?enemy, d) else if truthy ?neutral then (?neutral, d)
             else (pick (random env d) vs, d + 1)"
  have "aiMoveUnit env s f unit d
          = Some (if issuesMove (random env (snd ?td)) then [(idU unit, fst ?td)] else [], snd ?td + 1)"
    using assms by (simp add: aiMoveUnit_def issuesMove_def Let_def split_beta)
  moreover have "snd ?td = d \<or> snd ?td = d + 1" by simp
  ultimately show ?thesis by blast
qed

lemma count_moves:
  assumes "0 < N"
  shows "length (filter issuesMove (grid N)) = N - (3 * N) div 5 - 1"
proof -
  let ?c = "(3 * N) div 5"
  have iff: "issuesMove (real k / real N) \<longleftrightarrow> ?c < k" for k
  proof -
    have "issuesMove (real k / real N) \<longleftrightarrow> 6 / 10 * real N < real k"
      using assms by (simp add: issuesMove_def pos_less_divide_eq)
    also have "\<dots> \<longleftrightarrow> real (3 * N) < real (5 * k)"
      unfolding of_nat_mult of_nat_numeral by (intro iffI) linarith+
    also have "\<dots> \<longleftrightarrow> 3 * N < 5 * k" by (simp only: of_nat_less_iff)
    also have "\<dots> \<longleftrightarrow> ?c < k" by presburger
    finally show ?thesis .
  qed
  have "filter issuesMove (grid N) = map (\<lambda>k. real k / real N) (filter (\<lambda>k. ?c < k) [0..<N])"
    by (simp add: grid_def filter_map comp_def iff)
  then have "length (filter issuesMove (grid N)) = length (filter (\<lambda>k. ?c < k) [0..<N])" by simp
  also have "\<dots> = card ({k. ?c < k} \<inter> set [0..<N])"
    by (rule distinct_length_filter) simp
  also have "{k. ?c < k} \<inter> set [0..<N] = {?c + 1 ..< N}" by auto
  also have "card {?c + 1 ..< N} = N - ?c - 1" by simp
  finally show ?thesis .
qed

lemma count_all: "length (filter (\<lambda>r. \<not> P r) xs) = length xs - length (filter P xs)"
  by (induction xs) (auto simp: Suc_diff_le)

lemma moveShare_bounds:
  assumes "0 < N"
  shows "\<bar>moveShare N - 4 / 10\<bar> \<le> 1 / real N" "\<bar>noMoveShare N - 6 / 10\<bar> \<le> 1 / real N"
proof -
  define c where "c = (3 * N) div 5"
  have c: "5 * c \<le> 3 * N" "3 * N < 5 * c + 5" unfolding c_def by presburger+
  then have lt: "c + 1 \<le> N" using assms by linarith
  have cm: "length (filter issuesMove (grid N)) = N - c - 1"
    unfolding c_def by (rule count_moves[OF assms])
  have m: "real (length (filter issuesMove (grid N))) = real N - real c - 1"
    using lt by (simp add: cm)
  have len: "length (grid N) = N" by (simp add: grid_def)
  have "length (filter (\<lambda>r. \<not> issuesMove r) (grid N)) = N - (N - c - 1)"
    by (simp only: count_all cm len)
  also have "\<dots> = c + 1" using lt by simp
  finally have n: "real (length (filter (\<lambda>r. \<not> issuesMove r) (grid N))) = real c + 1"
    by simp
  have "real (5 * c) \<le> real (3 * N)" using c(1) by (simp only: of_nat_le_iff)
  then have rc1: "5 * real c \<le> 3 * real N" by simp
  have "real (3 * N) < real (5 * c + 5)" using c(2) by (simp only: of_nat_less_iff)
  then have rc2: "3 * real N < 5 * real c + 5" by simp
  have N: "0 < real N" using assms by simp
  have a1: "\<bar>real N - real c - 1 - 4 / 10 * real N\<bar> \<le> 1" using rc1 rc2 by linarith
  have a2: "\<bar>real c + 1 - 6 / 10 * real N\<bar> \<le> 1" using rc1 rc2 by linarith
  have "moveShare N - 4 / 10 = (real N - real c - 1 - 4 / 10 * real N) / real N"
    using N by (simp add: moveShare_def m field_simps)
  then have "\<bar>moveShare N - 4 / 10\<bar> = \<bar>real N - real c - 1 - 4 / 10 * real N\<bar> / real N"
    using N by simp
  also have "\<dots> \<le> 1 / real N" using a1 N by (intro divide_right_mono) simp_all
  finally show "\<bar>moveShare N - 4 / 10\<bar> \<le> 1 / real N" .
  have "noMoveShare N - 6 / 10 = (real c + 1 - 6 / 10 * real N) / real N"
    using N by (simp add: noMoveShare_def n field_simps)
  then have "\<bar>noMoveShare N - 6 / 10\<bar> = \<bar>real c + 1 - 6 / 10 * real N\<bar> / real N"
    using N by simp
  also have "\<dots> \<le> 1 / real N" using a2 N by (intro divide_right_mono) simp_all
  finally show "\<bar>noMoveShare N - 6 / 10\<bar> \<le> 1 / real N" .
qed

section \<open>The claims\<close>

text \<open>
  C1. With start day 300 and duration 65, the winter flag that a tick computes is on exactly
  when the day of the year, \<open>day mod 365\<close>, lies in 300..364: one window of 65 days, with no
  winter day at the start of the year. The day counter starts at 1 and only grows
  (\<open>reachable_inv\<close>), so the day of the year is never negative.
\<close>

theorem C1_winter_calendar:
  assumes "0 \<le> day s" "hasStarted s" "gameSpeed s \<noteq> 0" "\<not> gameOver s"
    and "updateGame env s = Some s'"
  shows "day s' = day s + 1 \<and> dayOfYear (day s') = day s' mod 365 \<and>
         (isWinter s' \<longleftrightarrow> day s' mod 365 \<in> {300..364}) \<and>
         {doy \<in> {0..364}. winterOn doy} = {WINTER_START_DAY ..< WINTER_START_DAY + WINTER_DURATION}"
  using assms(5)
proof (cases rule: updateGame_cases)
  case idle
  with assms show ?thesis by simp
next
  case (run us t2 t3)
  from arrivals_frame[OF run(5)] aiActions_frame[OF run(6)] run(7)
  have d: "day s' = day s + 1" and w: "isWinter s' = winterOn (dayOfYear (day s + 1))"
    by (simp_all add: sameMeta_def finish_fields purge_fields marched_fields)
  have doy: "dayOfYear (day s + 1) = (day s + 1) mod 365"
    using assms(1) by (simp add: dayOfYear_nonneg)
  have b: "0 \<le> (day s + 1) mod 365" "(day s + 1) mod 365 < 365" by simp_all
  have S: "{doy \<in> {0..364}. winterOn doy} = {WINTER_START_DAY ..< WINTER_START_DAY + WINTER_DURATION}"
    unfolding winterOn_iff WINTER_START_DAY_def WINTER_DURATION_def by auto
  have "isWinter s' \<longleftrightarrow> 300 \<le> (day s + 1) mod 365"
    unfolding w doy winterOn_iff using b(1) by linarith
  then have W: "isWinter s' \<longleftrightarrow> day s' mod 365 \<in> {300..364}"
  proof -
    have "(day s + 1) mod 365 \<le> 364" using b(2) by linarith
    with \<open>isWinter s' \<longleftrightarrow> 300 \<le> (day s + 1) mod 365\<close> show ?thesis
      unfolding d by simp
  qed
  from d doy have "dayOfYear (day s') = day s' mod 365" by simp
  with d W S show ?thesis by blast
qed

theorem C1_winter_calendar_witness:
  "\<exists>s'. updateGame envW (initialApp\<lparr>hasStarted := True, day := 300\<rparr>) = Some s' \<and>
        day s' = 301 \<and> isWinter s'"
proof -
  let ?s = "initialApp\<lparr>hasStarted := True, day := 300\<rparr>"
  have h: "0 \<le> day ?s" "hasStarted ?s" "gameSpeed ?s \<noteq> 0" "\<not> gameOver ?s"
    by (simp_all add: initialApp_def)
  have "updateGame envW ?s \<noteq> None"
    by (simp add: updateGame_def economy_def initialApp_def aiActions_def purge_def Let_def
          signed_modulo_int_def)
  then obtain s' where u: "updateGame envW ?s = Some s'" by auto
  from C1_winter_calendar[OF h u] have "day s' = 301" "isWinter s'" by simp_all
  with u show ?thesis by simp
qed

text \<open>
  C2. The unit at index \<open>i\<close> is alive and idle and \<open>j\<close> is the first enemy the loop finds at
  its node. Each modifier is 1, or 1.5 for a fleet on a sea node, plus half the fortification
  level for the side that owns the node (a level is an integer, exact in a double below
  \<open>2 ^ 52\<close>). Each roll is a draw of \<open>Math.random()\<close> times strength times modifier, both products
  rounded to doubles; for doubles, a strength of at least 1 and a product that does not
  overflow, the rounded roll is still in \<open>[0, strength \<times> modifier)\<close>. These side conditions on
  level and strength follow from \<open>combatInv\<close>, which holds in every state of a run and all
  through the arrival loop of its ticks (lemmas \<open>reachable_combat\<close>, \<open>loop_combat\<close>). The first
  unit wins when its roll is at least the other's. The winner's strength becomes
  \<open>max 10 (strength - 20 / modifier)\<close>, quotient and difference rounded to doubles; the loser's
  id is put on the dead list, so however the loop goes on no unit with that id is left after
  the purge, whatever its strength; the winner (ids being distinct) is still there after this
  combat.
\<close>

theorem C2_combat_resolution:
  assumes "u1 = units (st t) ! i" "u2 = units (st t) ! j" "i < length (units (st t))"
    and "idU u1 \<notin> set (deadUnitIds t)" "\<not> isMoving u1" "\<not> isTraining u1"
    and "findIndex (isEnemyOf (deadUnitIds t) u1) (units (st t)) = Some j"
    and "map_of (nodes (st t)) (locationId u1) = Some loc"
    and "roll1 = fmul (fmul (random env (draws t)) (strength u1)) (unitMod loc u1)"
    and "roll2 = fmul (fmul (random env (draws t + 1)) (strength u2)) (unitMod loc u2)"
    and "w = (if roll1 \<ge> roll2 then i else j)" "l = (if roll1 \<ge> roll2 then j else i)"
  shows "locationId u2 = locationId u1 \<and> ownerU u2 \<noteq> ownerU u1 \<and>
    (0 \<le> fortificationLevel loc \<and> fortificationLevel loc < 2 ^ 52 \<longrightarrow>
       unitMod loc u1 = (if typeN loc = SEA \<and> typeU u1 = FLEET then 1.5 else 1) +
                        (if ownerN loc = ownerU u1 then 0.5 * real_of_int (fortificationLevel loc) else 0) \<and>
       unitMod loc u2 = (if typeN loc = SEA \<and> typeU u2 = FLEET then 1.5 else 1) +
                        (if ownerN loc = ownerU u2 then 0.5 * real_of_int (fortificationLevel loc) else 0)) \<and>
    (0 \<le> fortificationLevel loc \<and> fortificationLevel loc < 2 ^ 52 \<and>
     validEnv env \<and> isDouble (random env (draws t)) \<and> isDouble (random env (draws t + 1)) \<and>
     isDouble (strength u1) \<and> isDouble (strength u2) \<and> 1 \<le> strength u1 \<and> 1 \<le> strength u2 \<and>
     strength u1 * unitMod loc u1 < 2 powi 1024 \<and> strength u2 * unitMod loc u2 < 2 powi 1024 \<longrightarrow>
       0 \<le> roll1 \<and> roll1 < strength u1 * unitMod loc u1 \<and>
       0 \<le> roll2 \<and> roll2 < strength u2 * unitMod loc u2) \<and>
    (combatInv (st t) \<longrightarrow>
       0 \<le> fortificationLevel loc \<and> fortificationLevel loc < 2 ^ 52 \<and>
       isDouble (strength u1) \<and> isDouble (strength u2) \<and> 1 \<le> strength u1 \<and> 1 \<le> strength u2 \<and>
       strength u1 * unitMod loc u1 < 2 powi 1024 \<and> strength u2 * unitMod loc u2 < 2 powi 1024) \<and>
    (\<exists>t'. arrival env i t = Some t' \<and>
       strength (units (st t') ! w)
         = max 10 (fsub (strength (units (st t) ! w)) (fdiv 20 (unitMod loc (units (st t) ! w)))) \<and>
       idU (units (st t) ! l) \<in> set (deadUnitIds t') \<and>
       (\<forall>is t''. arrivals env is t' = Some t''
          \<longrightarrow> (\<forall>u \<in> set (units (st (purge t''))). idU u \<noteq> idU (units (st t) ! l))) \<and>
       (distinct (map idU (units (st t))) \<longrightarrow> units (st t') ! w \<in> set (units (st (purge t')))))"
proof -
  let ?us = "units (st t)"
  from findIndex_SomeD[OF assms(7)] assms(2)
  have j: "j < length ?us" and en: "isEnemyOf (deadUnitIds t) u1 u2" by simp_all
  then have e: "locationId u2 = locationId u1" "ownerU u2 \<noteq> ownerU u1" "idU u2 \<notin> set (deadUnitIds t)"
    by (simp_all add: isEnemyOf_def)
  have m: "0 \<le> fortificationLevel loc \<and> fortificationLevel loc < 2 ^ 52 \<longrightarrow>
       unitMod loc u1 = (if typeN loc = SEA \<and> typeU u1 = FLEET then 1.5 else 1) +
                        (if ownerN loc = ownerU u1 then 0.5 * real_of_int (fortificationLevel loc) else 0) \<and>
       unitMod loc u2 = (if typeN loc = SEA \<and> typeU u2 = FLEET then 1.5 else 1) +
                        (if ownerN loc = ownerU u2 then 0.5 * real_of_int (fortificationLevel loc) else 0)"
    using unitMod_formula[of loc u1] unitMod_formula[of loc u2] by blast
  have rolls: "0 \<le> fmul (fmul r x) (unitMod loc u) \<and> fmul (fmul r x) (unitMod loc u) < x * unitMod loc u"
    if "0 \<le> fortificationLevel loc" "fortificationLevel loc < 2 ^ 52"
      "isDouble r" "0 \<le> r" "r < 1" "isDouble x" "1 \<le> x" "x * unitMod loc u < 2 powi 1024"
    for r x :: real and u
    unfolding fmul_def using that(3-8) unitMod_ge1[OF that(1,2), of u]
    by (intro fl_roll) (simp_all add: isDouble_def)
  have R: "0 \<le> fortificationLevel loc \<and> fortificationLevel loc < 2 ^ 52 \<and>
     validEnv env \<and> isDouble (random env (draws t)) \<and> isDouble (random env (draws t + 1)) \<and>
     isDouble (strength u1) \<and> isDouble (strength u2) \<and> 1 \<le> strength u1 \<and> 1 \<le> strength u2 \<and>
     strength u1 * unitMod loc u1 < 2 powi 1024 \<and> strength u2 * unitMod loc u2 < 2 powi 1024 \<longrightarrow>
       0 \<le> roll1 \<and> roll1 < strength u1 * unitMod loc u1 \<and>
       0 \<le> roll2 \<and> roll2 < strength u2 * unitMod loc u2"
  proof
    assume h: "0 \<le> fortificationLevel loc \<and> fortificationLevel loc < 2 ^ 52 \<and>
     validEnv env \<and> isDouble (random env (draws t)) \<and> isDouble (random env (draws t + 1)) \<and>
     isDouble (strength u1) \<and> isDouble (strength u2) \<and> 1 \<le> strength u1 \<and> 1 \<le> strength u2 \<and>
     strength u1 * unitMod loc u1 < 2 powi 1024 \<and> strength u2 * unitMod loc u2 < 2 powi 1024"
    then have v: "0 \<le> random env n" "random env n < 1" for n by (simp_all add: validEnv_def)
    from h have lv: "0 \<le> fortificationLevel loc" "fortificationLevel loc < 2 ^ 52" by simp_all
    from h have a: "isDouble (random env (draws t))" "isDouble (strength u1)" "1 \<le> strength u1"
      "strength u1 * unitMod loc u1 < 2 powi 1024" by simp_all
    from h have b: "isDouble (random env (draws t + 1))" "isDouble (strength u2)" "1 \<le> strength u2"
      "strength u2 * unitMod loc u2 < 2 powi 1024" by simp_all
    from rolls[OF lv a(1) v a(2,3,4)] rolls[OF lv b(1) v b(2,3,4)]
    show "0 \<le> roll1 \<and> roll1 < strength u1 * unitMod loc u1 \<and>
          0 \<le> roll2 \<and> roll2 < strength u2 * unitMod loc u2"
      unfolding assms(9,10) by simp
  qed
  have S: "combatInv (st t) \<longrightarrow>
       0 \<le> fortificationLevel loc \<and> fortificationLevel loc < 2 ^ 52 \<and>
       isDouble (strength u1) \<and> isDouble (strength u2) \<and> 1 \<le> strength u1 \<and> 1 \<le> strength u2 \<and>
       strength u1 * unitMod loc u1 < 2 powi 1024 \<and> strength u2 * unitMod loc u2 < 2 powi 1024"
  proof
    assume c: "combatInv (st t)"
    have m1: "u1 \<in> set ?us" using assms(1,3) by simp
    have m2: "u2 \<in> set ?us" using assms(2) j by simp
    from combat_sides[OF c assms(8) m1] combat_sides[OF c assms(8) m2]
    show "0 \<le> fortificationLevel loc \<and> fortificationLevel loc < 2 ^ 52 \<and>
       isDouble (strength u1) \<and> isDouble (strength u2) \<and> 1 \<le> strength u1 \<and> 1 \<le> strength u2 \<and>
       strength u1 * unitMod loc u1 < 2 powi 1024 \<and> strength u2 * unitMod loc u2 < 2 powi 1024"
      by simp
  qed
  have arr: "arrival env i t = fight env i j t"
    using assms(1,4,5,6,7) by (auto simp: arrival_def Let_def)
  have loc: "map_of (nodes (st t)) (locationId (?us ! i)) = Some loc" using assms(1,8) by auto
  define first where "first = (roll1 \<ge> roll2)"
  have f: "first =
      (fmul (fmul (random env (draws t)) (strength (?us ! i))) (unitMod loc (?us ! i))
         \<ge> fmul (fmul (random env (draws t + 1)) (strength (?us ! j))) (unitMod loc (?us ! j)))"
    using assms(1,2,9,10) by (auto simp: first_def)
  have w: "w = (if first then i else j)" and l: "l = (if first then j else i)"
    using assms(11,12) by (simp_all add: first_def)
  from fight_result[OF loc assms(3) j f w l] obtain t' where
    t': "fight env i j t = Some t'" "deadUnitIds t' = deadUnitIds t @ [idU (?us ! l)]"
      "map idU (units (st t')) = map idU ?us"
      "strength (units (st t') ! w)
         = max 10 (fsub (strength (?us ! w)) (fdiv 20 (unitMod loc (?us ! w))))"
    by blast
  have wl: "w < length ?us" "l < length ?us" "w \<noteq> l" "idU (?us ! w) \<notin> set (deadUnitIds t)"
    using assms(1,2,3,4) j e by (auto simp: w l)
  have dead: "idU (?us ! l) \<in> set (deadUnitIds t')" using t'(2) by simp
  have gone: "\<forall>is t''. arrivals env is t' = Some t''
                \<longrightarrow> (\<forall>u \<in> set (units (st (purge t''))). idU u \<noteq> idU (?us ! l))"
    using dead dead_purged by blast
  have stay: "units (st t') ! w \<in> set (units (st (purge t')))" if d: "distinct (map idU ?us)"
  proof -
    from wl(1,2,3) d have "idU (?us ! w) \<noteq> idU (?us ! l)"
      by (metis length_map nth_eq_iff_index_eq nth_map)
    moreover from t'(3) wl(1) have "idU (units (st t') ! w) = idU (?us ! w)"
      by (metis length_map nth_map)
    moreover from t'(3) wl(1) have "w < length (units (st t'))" by (metis length_map)
    ultimately show ?thesis using wl(4) t'(2) by (simp add: purge_fields)
  qed
  have E: "\<exists>t'. arrival env i t = Some t' \<and>
       strength (units (st t') ! w)
         = max 10 (fsub (strength (units (st t) ! w)) (fdiv 20 (unitMod loc (units (st t) ! w)))) \<and>
       idU (units (st t) ! l) \<in> set (deadUnitIds t') \<and>
       (\<forall>is t''. arrivals env is t' = Some t''
          \<longrightarrow> (\<forall>u \<in> set (units (st (purge t''))). idU u \<noteq> idU (units (st t) ! l))) \<and>
       (distinct (map idU (units (st t))) \<longrightarrow> units (st t') ! w \<in> set (units (st (purge t'))))"
    using arr t' dead gone stay by auto
  from e(1,2) m R S E show ?thesis by (intro conjI)
qed

theorem C2_combat_resolution_witness:
  "\<exists>t'. arrival envNear 0 battle = Some t' \<and> validEnv envNear \<and> combatInv (st battle) \<and>
     unitMod (createNode ''rome'' ''Roma'' PORT 55 35 ROME [''capua'', ''genoa'', ''tyrrhenian_sea'']
                (Some 200) (Some 10) (Some 800) (Some 2000) (Some 1)) legion = 3 / 2 \<and>
     fmul (fmul (random envNear 0) (strength hannibal)) 1 = 8013918776155331 / 2 ^ 47 \<and>
     fmul (fmul (random envNear 1) (strength legion)) (3 / 2) = 8013918776155332 / 2 ^ 47 \<and>
     fmul (fmul (random envNear 1) (strength legion)) (3 / 2) < 150 \<and>
     strength (units (st t') ! 1) = 6098624495397547 / 2 ^ 46 \<and> ''h'' \<in> set (deadUnitIds t') \<and>
     ''h'' \<notin> set (map idU (units (st (purge t')))) \<and>
     units (st t') ! 1 \<in> set (units (st (purge t')))"
proof -
  let ?loc = "createNode ''rome'' ''Roma'' PORT 55 35 ROME
       [''capua'', ''genoa'', ''tyrrhenian_sea''] (Some 200) (Some 10) (Some 800) (Some 2000) (Some 1)"
  have u: "units (st battle) = [hannibal, legion]" "deadUnitIds battle = []" "draws battle = 0"
    by (simp_all add: battle_def)
  have un: "units (st battle) ! 0 = hannibal" "units (st battle) ! 1 = legion"
    by (simp_all add: battle_def)
  have z: "0 + 1 = (1::nat)" by simp
  have h: "idU hannibal = ''h''" "\<not> isMoving hannibal" "\<not> isTraining hannibal"
    "locationId hannibal = ''rome''" "ownerU hannibal = CARTHAGE" "strength hannibal = 100"
    "idU legion = ''l''" "\<not> isTraining legion" "locationId legion = ''rome''" "ownerU legion = ROME"
    "strength legion = 100" "typeU legion = LEGION" "typeU hannibal = MERCENARY"
    by (simp_all add: hannibal_def legion_def newUnit_def UNIT_STRENGTH_ARMY_def)
  have l: "map_of (nodes (st battle)) (locationId hannibal) = Some ?loc"
    by (simp add: battle_def initialApp_def INITIAL_NODES_def h)
  have lv: "fortificationLevel ?loc = 1" "typeN ?loc = PORT" "ownerN ?loc = ROME"
    by (simp_all add: createNode_def)
  have e: "findIndex (isEnemyOf (deadUnitIds battle) hannibal) (units (st battle)) = Some 1"
    by (simp add: u isEnemyOf_def h)
  have r: "random envNear 0 = 2564454008369706 / 2 ^ 52"
    "random envNear 1 = 1709636005579804 / 2 ^ 52"
    by (simp_all add: envNear_def)
  have v: "validEnv envNear" by (simp add: validEnv_def envNear_def)
  have dbl: "isDouble (2564454008369706 / 2 ^ 52)" "isDouble (1709636005579804 / 2 ^ 52)"
    "isDouble 100"
    unfolding isDouble_def
    using fl_grid[of 2564454008369706 "- 52" "2564454008369706 / 2 ^ 52"]
      fl_grid[of 1709636005579804 "- 52" "1709636005579804 / 2 ^ 52"] fl_grid[of 100 0 100]
    by simp_all
  have p: "hannibal = units (st battle) ! 0" "legion = units (st battle) ! 1"
    "0 < length (units (st battle))" "idU hannibal \<notin> set (deadUnitIds battle)"
    by (simp_all add: u)
  have fl: "0 \<le> fortificationLevel ?loc" "fortificationLevel ?loc < 2 ^ 52"
    by (simp_all add: createNode_def)
  have d: "distinct (map idU (units (st battle)))" by (simp add: u h)
  note T = C2_combat_resolution[where t = battle and i = 0 and j = 1 and loc = ?loc and env = envNear,
      OF p(1,2,3,4) h(2,3) e l refl refl refl refl]
  from T fl have c: "unitMod ?loc hannibal = 1" "unitMod ?loc legion = 3 / 2"
    by (simp_all add: h lv)
  have q1: "fmul (fmul (random envNear 0) (strength hannibal)) 1 = 8013918776155331 / 2 ^ 47"
    unfolding r h by (rule near_tie_first)
  have q2: "fmul (fmul (random envNear 1) (strength legion)) (3 / 2) = 8013918776155332 / 2 ^ 47"
    unfolding r h by (rule near_tie_second)
  have r1: "fmul (fmul (random envNear (draws battle)) (strength hannibal)) (unitMod ?loc hannibal)
              = 8013918776155331 / 2 ^ 47"
    unfolding u c by (rule q1)
  have r2: "fmul (fmul (random envNear (draws battle + 1)) (strength legion)) (unitMod ?loc legion)
              = 8013918776155332 / 2 ^ 47"
    unfolding u z c by (rule q2)
  have ci: "combatInv (st battle)"
    using fit_100 by (simp add: combatInv_def walls_def battle_def initialApp_def INITIAL_NODES_def
        createNode_def MAX_FORTIFICATION_def hannibal_def legion_def newUnit_def
        UNIT_STRENGTH_ARMY_def)
  from T ci have sides: "0 \<le> fortificationLevel ?loc \<and> fortificationLevel ?loc < 2 ^ 52 \<and>
     isDouble (strength hannibal) \<and> isDouble (strength legion) \<and>
     1 \<le> strength hannibal \<and> 1 \<le> strength legion \<and>
     strength hannibal * unitMod ?loc hannibal < 2 powi 1024 \<and>
     strength legion * unitMod ?loc legion < 2 powi 1024"
    by blast
  have dr: "isDouble (random envNear (draws battle))" "isDouble (random envNear (draws battle + 1))"
    unfolding u z r by (rule dbl)+
  from v dr sides
  have H: "0 \<le> fortificationLevel ?loc \<and> fortificationLevel ?loc < 2 ^ 52 \<and>
     validEnv envNear \<and> isDouble (random envNear (draws battle)) \<and>
     isDouble (random envNear (draws battle + 1)) \<and>
     isDouble (strength hannibal) \<and> isDouble (strength legion) \<and>
     1 \<le> strength hannibal \<and> 1 \<le> strength legion \<and>
     strength hannibal * unitMod ?loc hannibal < 2 powi 1024 \<and>
     strength legion * unitMod ?loc legion < 2 powi 1024"
    by blast
  from T H
  have "fmul (fmul (random envNear (draws battle + 1)) (strength legion)) (unitMod ?loc legion)
          < strength legion * unitMod ?loc legion"
    by blast
  then have lt: "fmul (fmul (random envNear 1) (strength legion)) (3 / 2) < 150"
    unfolding u z c by (simp add: h)
  have w: "(if fmul (fmul (random envNear (draws battle)) (strength hannibal)) (unitMod ?loc hannibal)
               \<ge> fmul (fmul (random envNear (draws battle + 1)) (strength legion)) (unitMod ?loc legion)
            then 0 else 1) = (1::nat)"
       "(if fmul (fmul (random envNear (draws battle)) (strength hannibal)) (unitMod ?loc hannibal)
               \<ge> fmul (fmul (random envNear (draws battle + 1)) (strength legion)) (unitMod ?loc legion)
            then 1 else 0) = (0::nat)"
    unfolding r1 r2 by simp_all
  from T[unfolded w] d obtain t' where t0: "arrival envNear 0 battle = Some t'"
    "strength (units (st t') ! 1)
       = max 10 (fsub (strength (units (st battle) ! 1))
                   (fdiv 20 (unitMod ?loc (units (st battle) ! 1))))"
    "idU (units (st battle) ! 0) \<in> set (deadUnitIds t')"
    "\<forall>is t''. arrivals envNear is t' = Some t''
        \<longrightarrow> (\<forall>u \<in> set (units (st (purge t''))). idU u \<noteq> idU (units (st battle) ! 0))"
    "units (st t') ! 1 \<in> set (units (st (purge t')))"
    by blast
  from t0(2) have s: "strength (units (st t') ! 1) = 6098624495397547 / 2 ^ 46"
    unfolding un c h strike_legion by simp
  from t0(3) have k: "''h'' \<in> set (deadUnitIds t')" by (simp add: un h)
  from t0(4) arrivals.simps(1)[of envNear t']
  have "\<forall>u \<in> set (units (st (purge t'))). idU u \<noteq> idU (units (st battle) ! 0)" by blast
  then have g: "''h'' \<notin> set (map idU (units (st (purge t'))))" by (auto simp: un h)
  show ?thesis
    by (intro exI[of _ t'] conjI t0(1) v ci c(2) q1 q2 lt s k g t0(5))
qed



text \<open>
  C4. In every reachable state a sea node has income 0, manpower growth 0 and the maximum
  manpower 1000 that \<open>createNode\<close> gives by default (its current manpower is 0 in the initial
  world); and the arrival step of a unit that is not a fleet leaves every sea node as it was,
  its owner included.
\<close>

theorem C4_sea_nodes:
  "(reachable s \<and> map_of (nodes s) k = Some n \<and> typeN n = SEA \<longrightarrow>
      income n = 0 \<and> manpowerGrowth n = 0 \<and> maxManpower n = 1000) \<and>
   ((k, n) \<in> set INITIAL_NODES \<and> typeN n = SEA \<longrightarrow> localManpower n = 0) \<and>
   (arrival env i t = Some t' \<and> idsOK (nodes (st t)) \<and> typeU (units (st t) ! i) \<noteq> FLEET \<and>
    map_of (nodes (st t)) k = Some n \<and> typeN n = SEA
      \<longrightarrow> map_of (nodes (st t')) k = Some n \<and> map_option ownerN (map_of (nodes (st t')) k) = Some (ownerN n))"
proof (intro conjI impI)
  assume "reachable s \<and> map_of (nodes s) k = Some n \<and> typeN n = SEA"
  then show "income n = 0" "manpowerGrowth n = 0" "maxManpower n = 1000"
    using reachable_sea by blast+
next
  assume "(k, n) \<in> set INITIAL_NODES \<and> typeN n = SEA"
  then show "localManpower n = 0" using INITIAL_NODES_sea by blast
next
  assume a: "arrival env i t = Some t' \<and> idsOK (nodes (st t)) \<and> typeU (units (st t) ! i) \<noteq> FLEET \<and>
    map_of (nodes (st t)) k = Some n \<and> typeN n = SEA"
  then have "map_of (nodes (st t')) k = Some n" using arrival_land_keeps_sea by blast
  then show "map_of (nodes (st t')) k = Some n"
    "map_option ownerN (map_of (nodes (st t')) k) = Some (ownerN n)" by simp_all
qed

theorem C4_sea_max_manpower_counterexample:
  "map_option typeN (map_of (nodes initialApp) ''ionian_sea'') = Some SEA \<and>
   map_option maxManpower (map_of (nodes initialApp) ''ionian_sea'') = Some 1000 \<and>
   map_option maxManpower (map_of (nodes initialApp) ''ionian_sea'') \<noteq> Some 0"
  by (simp add: initialApp_def INITIAL_NODES_def createNode_def)

theorem C4_sea_nodes_witness:
  "(\<exists>s n. run fourFleets initialApp = Some s \<and> reachable s \<and>
       map_of (nodes s) ''ionian_sea'' = Some n \<and> typeN n = SEA \<and>
       income n = 0 \<and> manpowerGrowth n = 0 \<and> maxManpower n = 1000 \<and> localManpower n = 0) \<and>
   (\<exists>t' n. arrival envW 0 legionAtSea = Some t' \<and>
       map_of (nodes (st legionAtSea)) ''tyrrhenian_sea'' = Some n \<and> typeN n = SEA \<and>
       ownerN n = NEUTRAL \<and> map_option ownerN (map_of (nodes (st t')) ''tyrrhenian_sea'') = Some NEUTRAL)"
proof -
  let ?ion = "createNode ''ionian_sea'' ''Ionian Sea'' SEA 75 55 NEUTRAL
       [''tarentum'', ''syracuse''] (Some 0) (Some 0) (Some 0) None None"
  let ?tyr = "createNode ''tyrrhenian_sea'' ''Tyrrhenian Sea'' SEA 50 45 NEUTRAL
       [''rome'', ''syracuse'', ''sardinia''] (Some 0) (Some 0) (Some 0) None None"
  have "run fourFleets initialApp \<noteq> None"
    by (simp add: fourFleets_def eval_commands)
  then obtain s where r: "run fourFleets initialApp = Some s" by auto
  have "map_option (\<lambda>s. map_of (nodes s) ''ionian_sea'') (run fourFleets initialApp) = Some (Some ?ion)"
    by (simp add: fourFleets_def eval_commands)
  with r have n: "map_of (nodes s) ''ionian_sea'' = Some ?ion" by simp
  have re: "reachable s" using reachable.init r by (rule reachable_run)
  have ty: "typeN ?ion = SEA" "typeN ?tyr = SEA" "ownerN ?tyr = NEUTRAL"
    by (simp_all add: createNode_def)
  have "(''ionian_sea'', ?ion) \<in> set INITIAL_NODES" by (simp add: INITIAL_NODES_def)
  with C4_sea_nodes[where s = s and k = "''ionian_sea''" and n = ?ion] re n ty
  have A: "income ?ion = 0 \<and> manpowerGrowth ?ion = 0 \<and> maxManpower ?ion = 1000 \<and> localManpower ?ion = 0"
    by simp
  have "arrival envW 0 legionAtSea \<noteq> None"
    by (simp add: legionAtSea_def eval_tick)
  then obtain t' where t': "arrival envW 0 legionAtSea = Some t'" by auto
  have i: "idsOK (nodes (st legionAtSea))"
    using INITIAL_NODES_ids by (simp add: legionAtSea_def initialApp_def)
  have l: "typeU (units (st legionAtSea) ! 0) \<noteq> FLEET"
    "map_of (nodes (st legionAtSea)) ''tyrrhenian_sea'' = Some ?tyr"
    by (simp_all add: legionAtSea_def newUnit_def initialApp_def INITIAL_NODES_def)
  from C4_sea_nodes[where env = envW and i = 0 and t = legionAtSea and t' = t' and k = "''tyrrhenian_sea''"
      and n = ?tyr] t' i l ty
  have B: "map_option ownerN (map_of (nodes (st t')) ''tyrrhenian_sea'') = Some NEUTRAL" by simp
  from r re n ty A t' l B show ?thesis by blast
qed

text \<open>
  C5. The recruit command of the player is a click on one of the two recruit buttons. The fleet
  button exists only on a port and the army button only on a city or a port, so on any other
  selected node (or with none selected) the click creates no unit and changes nothing. A click
  that does change the state appends one unit in training at the selected node: a fleet for the
  fleet button, a legion or mercenary for the army button. The node kind is tested by the
  buttons, not by \<open>handleRecruit\<close>. The AI asks for a fleet only at a port and for a land unit
  only at a city or a port.
\<close>

theorem C5_recruit_node_kinds:
  "(map_option typeN (selectedNode s) \<noteq> Some PORT \<longrightarrow> clickRecruitFleet uid s = Some s) \<and>
   (map_option typeN (selectedNode s) \<noteq> Some CITY \<and> map_option typeN (selectedNode s) \<noteq> Some PORT
      \<longrightarrow> clickRecruitArmy uid s = Some s) \<and>
   (clickRecruitFleet uid s = Some s' \<and> s' \<noteq> s \<longrightarrow>
      (\<exists>node. selectedNode s = Some node \<and> typeN node = PORT \<and>
         units s' = units s @ [newUnit uid (playerFaction s) FLEET (idN node)])) \<and>
   (clickRecruitArmy uid s = Some s' \<and> s' \<noteq> s \<longrightarrow>
      (\<exists>node ty. selectedNode s = Some node \<and> (typeN node = CITY \<or> typeN node = PORT) \<and>
         (ty = LEGION \<or> ty = MERCENARY) \<and>
         units s' = units s @ [newUnit uid (playerFaction s) ty (idN node)])) \<and>
   ((nid, ty) \<in> set (fst (aiRecruit env s f d)) \<longrightarrow>
      (\<exists>node \<in> snd ` set (nodes s). idN node = nid \<and>
         (if ty = FLEET then typeN node = PORT else typeN node = CITY \<or> typeN node = PORT)))"
proof (intro conjI impI)
  assume "map_option typeN (selectedNode s) \<noteq> Some PORT"
  then show "clickRecruitFleet uid s = Some s"
    by (auto simp: clickRecruitFleet_def split: option.splits dest: actionBar_selected)
next
  assume "map_option typeN (selectedNode s) \<noteq> Some CITY \<and> map_option typeN (selectedNode s) \<noteq> Some PORT"
  then show "clickRecruitArmy uid s = Some s"
    by (auto simp: clickRecruitArmy_def split: option.splits dest: actionBar_selected)
next
  assume a: "clickRecruitFleet uid s = Some s' \<and> s' \<noteq> s"
  then obtain node where n: "actionBar s = Some node" "typeN node = PORT"
    and h: "handleRecruit uid FLEET s = Some s'"
    by (auto simp: clickRecruitFleet_def split: option.splits if_splits)
  from handleRecruit_unit[OF h _ actionBar_selected[OF n(1)]] a n actionBar_selected[OF n(1)]
  show "\<exists>node. selectedNode s = Some node \<and> typeN node = PORT \<and>
         units s' = units s @ [newUnit uid (playerFaction s) FLEET (idN node)]" by blast
next
  assume a: "clickRecruitArmy uid s = Some s' \<and> s' \<noteq> s"
  let ?ty = "if playerFaction s = ROME then LEGION else MERCENARY"
  from a obtain node where n: "actionBar s = Some node" "typeN node = CITY \<or> typeN node = PORT"
    and h: "handleRecruit uid ?ty s = Some s'"
    by (auto simp: clickRecruitArmy_def split: option.splits if_splits)
  have "?ty = LEGION \<or> ?ty = MERCENARY" by simp
  with handleRecruit_unit[OF h _ actionBar_selected[OF n(1)]] a n actionBar_selected[OF n(1)]
  show "\<exists>node ty. selectedNode s = Some node \<and> (typeN node = CITY \<or> typeN node = PORT) \<and>
         (ty = LEGION \<or> ty = MERCENARY) \<and>
         units s' = units s @ [newUnit uid (playerFaction s) ty (idN node)]" by blast
next
  assume "(nid, ty) \<in> set (fst (aiRecruit env s f d))"
  from aiRecruit_kinds[OF this]
  show "\<exists>node \<in> snd ` set (nodes s). idN node = nid \<and>
         (if ty = FLEET then typeN node = PORT else typeN node = CITY \<or> typeN node = PORT)"
    by blast
qed

theorem C5_recruit_node_kinds_witness:
  "clickRecruitFleet ''u'' (selecting ''capua'') = Some (selecting ''capua'') \<and>
   clickRecruitArmy ''u'' (selecting ''ionian_sea'') = Some (selecting ''ionian_sea'') \<and>
   map_option units (clickRecruitFleet ''u'' (selecting ''rome''))
     = Some [newUnit ''u'' ROME FLEET ''rome''] \<and>
   map_option units (clickRecruitArmy ''u'' (selecting ''capua''))
     = Some [newUnit ''u'' ROME LEGION ''capua''] \<and>
   (''carthage'', MERCENARY) \<in> set (fst (aiRecruit envW (selecting ''rome'') CARTHAGE 0)) \<and>
   map_option typeN (map_of (nodes (selecting ''rome'')) ''carthage'') = Some PORT"
proof -
  have k1: "map_option typeN (selectedNode (selecting ''capua'')) = Some CITY"
    and k2: "map_option typeN (selectedNode (selecting ''ionian_sea'')) = Some SEA"
    by (simp_all add: eval_clicks)
  from C5_recruit_node_kinds[of "selecting ''capua''" "''u''"] k1
  have c1: "clickRecruitFleet ''u'' (selecting ''capua'') = Some (selecting ''capua'')" by simp
  from C5_recruit_node_kinds[of "selecting ''ionian_sea''" "''u''"] k2
  have c2: "clickRecruitArmy ''u'' (selecting ''ionian_sea'') = Some (selecting ''ionian_sea'')"
    by simp
  have "clickRecruitFleet ''u'' (selecting ''rome'') \<noteq> None"
    by (simp add: eval_clicks)
  then obtain s3 where s3: "clickRecruitFleet ''u'' (selecting ''rome'') = Some s3" by auto
  have "map_option (\<lambda>s. length (units s)) (clickRecruitFleet ''u'' (selecting ''rome'')) = Some 1"
    by (simp add: eval_clicks)
  with s3 have "length (units s3) = 1" by simp
  moreover have "units (selecting ''rome'') = []" by (simp add: selecting_def initialApp_def)
  ultimately have d3: "s3 \<noteq> selecting ''rome''" by auto
  have n3: "selectedNode (selecting ''rome'') = Some (createNode ''rome'' ''Roma'' PORT 55 35 ROME
       [''capua'', ''genoa'', ''tyrrhenian_sea''] (Some 200) (Some 10) (Some 800) (Some 2000) (Some 1))"
    by (simp add: selecting_def selectedNode_def initialApp_def INITIAL_NODES_def)
  have pf: "playerFaction (selecting k) = ROME" "units (selecting k) = []" for k
    by (simp_all add: selecting_def initialApp_def)
  from C5_recruit_node_kinds[where s = "selecting ''rome''" and uid = "''u''" and s' = s3] s3 d3
  obtain node3 where "selectedNode (selecting ''rome'') = Some node3"
    "units s3 = units (selecting ''rome'') @ [newUnit ''u'' (playerFaction (selecting ''rome'')) FLEET (idN node3)]"
    by blast
  with n3 have c3: "units s3 = [newUnit ''u'' ROME FLEET ''rome'']"
    by (simp add: pf createNode_def)
  have "clickRecruitArmy ''u'' (selecting ''capua'') \<noteq> None"
    by (simp add: eval_clicks)
  then obtain s4 where s4: "clickRecruitArmy ''u'' (selecting ''capua'') = Some s4" by auto
  have "map_option (\<lambda>s. map typeU (units s)) (clickRecruitArmy ''u'' (selecting ''capua'')) = Some [LEGION]"
    by (simp add: eval_clicks)
  with s4 have t4: "map typeU (units s4) = [LEGION]" by simp
  moreover have u0: "units (selecting ''capua'') = []" by (simp add: selecting_def initialApp_def)
  ultimately have d4: "s4 \<noteq> selecting ''capua''" by auto
  have n4: "selectedNode (selecting ''capua'') = Some (createNode ''capua'' ''Capua'' CITY 60 40 ROME
       [''rome'', ''tarentum''] (Some 100) (Some 5) (Some 400) None None)"
    by (simp add: selecting_def selectedNode_def initialApp_def INITIAL_NODES_def)
  from C5_recruit_node_kinds[where s = "selecting ''capua''" and uid = "''u''" and s' = s4] s4 d4
  obtain node4 ty where "selectedNode (selecting ''capua'') = Some node4"
    "units s4 = units (selecting ''capua'') @ [newUnit ''u'' (playerFaction (selecting ''capua'')) ty (idN node4)]"
    by blast
  with n4 have "units s4 = [newUnit ''u'' ROME ty ''capua'']"
    by (simp add: pf createNode_def)
  with t4 have c4: "units s4 = [newUnit ''u'' ROME LEGION ''capua'']" by (simp add: newUnit_def)
  have c5: "(''carthage'', MERCENARY) \<in> set (fst (aiRecruit envW (selecting ''rome'') CARTHAGE 0))"
    by (simp add: aiRecruit_def envW_def eval_clicks)
  from C5_recruit_node_kinds[where s = "selecting ''rome''" and nid = "''carthage''" and ty = MERCENARY
        and env = envW and f = CARTHAGE and d = 0] c5
  have "\<exists>node \<in> snd ` set (nodes (selecting ''rome'')). idN node = ''carthage'' \<and>
          (typeN node = CITY \<or> typeN node = PORT)" by simp
  have c6: "map_option typeN (map_of (nodes (selecting ''rome'')) ''carthage'') = Some PORT"
    by (simp add: eval_clicks)
  from c1 c2 c3 c4 c5 c6 s3 s4 show ?thesis by simp
qed

text \<open>
  C6. \<open>findPath\<close> returns the empty path when start and end are the same node. On a well-formed
  map (every reachable map is one, \<open>reachable_wfNodes\<close>) and from a start that is a node, it
  returns \<open>NoPath\<close>, the result \<open>null\<close> and not a throw, when no route leads to the end under
  the fleets now on the map; a path it returns is such a route. When the end is a neighbour of
  the start over a usable edge it returns the one-element path that ends there.
\<close>

theorem C6_pathfinder_contract:
  "findPath a a f s = Some (Path []) \<and>
   (wfNodes (nodes s) \<and> map_of (nodes s) a \<noteq> None \<and>
    \<not> (\<exists>p. route (nodes s) (units s) f a p \<and> last (a # p) = b)
      \<longrightarrow> findPath a b f s = Some NoPath) \<and>
   (wfNodes (nodes s) \<and> map_of (nodes s) a \<noteq> None \<and> findPath a b f s = Some (Path p)
      \<longrightarrow> route (nodes s) (units s) f a p \<and> last (a # p) = b) \<and>
   (wfNodes (nodes s) \<and> a \<noteq> b \<and> traversable (nodes s) (units s) f a b
      \<longrightarrow> findPath a b f s = Some (Path [b]))"
proof (intro conjI impI)
  show "findPath a a f s = Some (Path [])" by (simp add: findPath_def)
next
  assume h: "wfNodes (nodes s) \<and> map_of (nodes s) a \<noteq> None \<and>
    \<not> (\<exists>p. route (nodes s) (units s) f a p \<and> last (a # p) = b)"
  with findPath_sound_total[of s a b f] obtain r where
    r: "findPath a b f s = Some r" "\<forall>p. r \<noteq> Path p" by blast
  then show "findPath a b f s = Some NoPath" by (cases r) simp_all
next
  assume h: "wfNodes (nodes s) \<and> map_of (nodes s) a \<noteq> None \<and> findPath a b f s = Some (Path p)"
  with findPath_sound_total[of s a b f]
  show "route (nodes s) (units s) f a p" "last (a # p) = b" by auto
next
  assume "wfNodes (nodes s) \<and> a \<noteq> b \<and> traversable (nodes s) (units s) f a b"
  then show "findPath a b f s = Some (Path [b])" using findPath_direct by blast
qed

theorem C6_pathfinder_contract_witness:
  "findPath ''rome'' ''rome'' ROME initialApp = Some (Path []) \<and>
   findPath ''rome'' ''tyrrhenian_sea'' ROME initialApp = Some NoPath \<and>
   findPath ''rome'' ''capua'' ROME initialApp = Some (Path [''capua'']) \<and>
   findPath ''rome'' ''tyrrhenian_sea'' ROME (initialApp\<lparr>units := [romanFleet]\<rparr>)
     = Some (Path [''tyrrhenian_sea'']) \<and>
   route (nodes initialApp) (units initialApp) ROME ''rome'' [''capua'']"
proof -
  let ?s = "initialApp" and ?t = "initialApp\<lparr>units := [romanFleet]\<rparr>"
  have n: "nodes ?s = INITIAL_NODES" "nodes ?t = INITIAL_NODES" "units ?s = []"
    "units ?t = [romanFleet]"
    by (simp_all add: initialApp_def)
  have w: "wfNodes (nodes ?s)" "wfNodes (nodes ?t)" using INITIAL_NODES_wf by (simp_all add: n)
  have k: "map_of (nodes ?s) ''rome'' \<noteq> None" by (simp add: n INITIAL_NODES_def)
  have A: "findPath ''rome'' ''rome'' ROME ?s = Some (Path [])"
    using C6_pathfinder_contract[of "''rome''" ROME ?s] by simp
  have nf: "\<forall>k. \<not> hasFleet (units ?s) ROME k" by (simp add: n hasFleet_def)
  have land: "map_option typeN (map_of (nodes ?s) ''rome'') \<noteq> Some SEA"
    and sea: "map_option typeN (map_of (nodes ?s) ''tyrrhenian_sea'') = Some SEA"
    by (simp_all add: n INITIAL_NODES_def createNode_def)
  have "\<not> (\<exists>p. route (nodes ?s) (units ?s) ROME ''rome'' p \<and> last (''rome'' # p) = ''tyrrhenian_sea'')"
    using route_stays_on_land[OF _ nf land] sea by metis
  with C6_pathfinder_contract[of "''rome''" ROME ?s "''tyrrhenian_sea''"] w k
  have B: "findPath ''rome'' ''tyrrhenian_sea'' ROME ?s = Some NoPath" by blast
  have t1: "traversable (nodes ?s) (units ?s) ROME ''rome'' ''capua''"
    by (simp add: n traversable_def INITIAL_NODES_def createNode_def)
  with C6_pathfinder_contract[of "''rome''" ROME ?s "''capua''"] w
  have C: "findPath ''rome'' ''capua'' ROME ?s = Some (Path [''capua''])" by simp
  with C6_pathfinder_contract[of "''rome''" ROME ?s "''capua''" "[''capua'']"] w k
  have E: "route (nodes ?s) (units ?s) ROME ''rome'' [''capua'']" by blast
  have t2: "traversable (nodes ?t) (units ?t) ROME ''rome'' ''tyrrhenian_sea''"
    by (simp add: n traversable_def INITIAL_NODES_def createNode_def hasFleet_def romanFleet_def
          newUnit_def)
  with C6_pathfinder_contract[of "''rome''" ROME ?t "''tyrrhenian_sea''"] w
  have D: "findPath ''rome'' ''tyrrhenian_sea'' ROME ?t = Some (Path [''tyrrhenian_sea''])" by simp
  from A B C D E show ?thesis by simp
qed

text \<open>
  C7. When the AI has found a legal target neighbour for an idle unit, the move intent is
  pushed exactly when the next draw of \<open>Math.random()\<close> is greater than 0.6. So the move is
  issued with probability 40% and withheld with probability 60%: among the \<open>N\<close> equally spaced
  draws of \<open>[0, 1)\<close> the share that issues the move is within \<open>1/N\<close> of 40%, and the share that
  withholds it within \<open>1/N\<close> of 60%, for every \<open>N\<close>.
\<close>

theorem C7_move_friction:
  "(map_of (nodes s) (locationId unit) = Some node \<and>
    validNeighbors s f unit (connections node) = Some vs \<and> vs \<noteq> []
      \<longrightarrow> (\<exists>target d1. (d1 = d \<or> d1 = d + 1) \<and>
             aiMoveUnit env s f unit d
               = Some (if issuesMove (random env d1) then [(idU unit, target)] else [], d1 + 1))) \<and>
   (issuesMove r \<longleftrightarrow> 6 / 10 < r) \<and>
   (0 < N \<longrightarrow> \<bar>moveShare N - 4 / 10\<bar> \<le> 1 / real N \<and> \<bar>noMoveShare N - 6 / 10\<bar> \<le> 1 / real N)"
proof (intro conjI impI)
  assume h: "map_of (nodes s) (locationId unit) = Some node \<and>
    validNeighbors s f unit (connections node) = Some vs \<and> vs \<noteq> []"
  from h have a: "map_of (nodes s) (locationId unit) = Some node" by (rule conjunct1)
  from h have b: "validNeighbors s f unit (connections node) = Some vs"
    by (rule conjunct1[OF conjunct2])
  from h have c: "vs \<noteq> []" by (rule conjunct2[OF conjunct2])
  show "\<exists>target d1. (d1 = d \<or> d1 = d + 1) \<and>
             aiMoveUnit env s f unit d
               = Some (if issuesMove (random env d1) then [(idU unit, target)] else [], d1 + 1)"
    by (rule aiMoveUnit_friction[OF a b c])
next
  show "issuesMove r \<longleftrightarrow> 6 / 10 < r" by (simp add: issuesMove_def)
next
  assume "0 < N"
  then show "\<bar>moveShare N - 4 / 10\<bar> \<le> 1 / real N" "\<bar>noMoveShare N - 6 / 10\<bar> \<le> 1 / real N"
    by (rule moveShare_bounds)+
qed

theorem C7_no_move_share_counterexample:
  "noMoveShare 100 = 61 / 100 \<and> moveShare 100 = 39 / 100 \<and> noMoveShare 100 \<noteq> 40 / 100"
proof -
  have m: "length (filter issuesMove (grid 100)) = 39"
    using count_moves[of 100] by simp
  have "length (grid 100) = 100" by (simp add: grid_def)
  with m have n: "length (filter (\<lambda>r. \<not> issuesMove r) (grid 100)) = 61"
    by (simp add: count_all)
  show ?thesis by (simp add: noMoveShare_def moveShare_def m n)
qed

theorem C7_move_friction_witness:
  "map_option fst (aiMoveUnit envW (st atGates) CARTHAGE hannibal 0) = Some [] \<and>
   map_option fst (aiMoveUnit envHigh (st atGates) CARTHAGE hannibal 0) = Some [(''h'', Some ''capua'')] \<and>
   \<bar>moveShare 1000 - 4 / 10\<bar> \<le> 1 / 1000 \<and> \<bar>noMoveShare 1000 - 6 / 10\<bar> \<le> 1 / 1000"
proof -
  let ?node = "createNode ''rome'' ''Roma'' PORT 55 35 ROME
       [''capua'', ''genoa'', ''tyrrhenian_sea''] (Some 200) (Some 10) (Some 800) (Some 2000) (Some 1)"
  have l: "map_of (nodes (st atGates)) (locationId hannibal) = Some ?node"
    by (simp add: atGates_def initialApp_def INITIAL_NODES_def hannibal_def newUnit_def)
  have v: "validNeighbors (st atGates) CARTHAGE hannibal (connections ?node) = Some [''capua'', ''genoa'']"
    by (simp add: atGates_def initialApp_def INITIAL_NODES_def hannibal_def newUnit_def createNode_def
          hasFleet_def)
  note T = C7_move_friction[where s = "st atGates" and unit = hannibal and node = ?node
      and f = CARTHAGE and vs = "[''capua'', ''genoa'']" and d = 0]
  from T[where env = envW] l v obtain target d1 where
    "aiMoveUnit envW (st atGates) CARTHAGE hannibal 0
       = Some (if issuesMove (random envW d1) then [(idU hannibal, target)] else [], d1 + 1)"
    by blast
  moreover have "\<not> issuesMove (random envW d1)" by (simp add: envW_def issuesMove_def)
  ultimately have A: "map_option fst (aiMoveUnit envW (st atGates) CARTHAGE hannibal 0) = Some []"
    by simp
  have B: "map_option fst (aiMoveUnit envHigh (st atGates) CARTHAGE hannibal 0)
             = Some [(''h'', Some ''capua'')]"
    by (simp add: aiMoveUnit_def l v envHigh_def ownerAt_def truthy_def atGates_def initialApp_def
          INITIAL_NODES_def createNode_def hannibal_def newUnit_def Let_def)
  from T[where N = 1000] have C: "\<bar>moveShare 1000 - 4 / 10\<bar> \<le> 1 / 1000"
    "\<bar>noMoveShare 1000 - 6 / 10\<bar> \<le> 1 / 1000" by simp_all
  from A B C show ?thesis by simp
qed

text \<open>
  C8. In every state reached from the initial world by ticks and commands, the gold of every
  faction is at least zero. The three operations that spend gold (the player's recruit and
  fortify, and the recruitment of the AI) change nothing when the treasury does not cover the
  cost.
\<close>

theorem C8_gold_never_negative:
  "(reachable s \<longrightarrow> 0 \<le> gold (resources s) f) \<and>
   (gold (resources s) (playerFaction s) < goldC (unitCost ty) \<longrightarrow> handleRecruit uid ty s = Some s) \<and>
   (gold (resources s) (playerFaction s) < FORTIFY_COST \<longrightarrow> handleFortify s = Some s) \<and>
   (map_of (nodes s) nodeId = Some node \<and> gold (resources s) (ownerN node) < goldC (unitCost ty)
      \<longrightarrow> applyRecruitment env (nodeId, ty) (s, k) = Some (s, k))"
proof (intro conjI impI)
  assume "reachable s"
  then have "worldInv s" by (rule reachable_inv)
  then show "0 \<le> gold (resources s) f" by (simp add: worldInv_def goldOK_def)
next
  assume "gold (resources s) (playerFaction s) < goldC (unitCost ty)"
  then show "handleRecruit uid ty s = Some s"
    by (simp add: handleRecruit_def Let_def split: option.splits)
next
  assume "gold (resources s) (playerFaction s) < FORTIFY_COST"
  then show "handleFortify s = Some s"
    by (simp add: handleFortify_def Let_def split: option.splits)
next
  assume "map_of (nodes s) nodeId = Some node \<and> gold (resources s) (ownerN node) < goldC (unitCost ty)"
  then show "applyRecruitment env (nodeId, ty) (s, k) = Some (s, k)"
    by (simp add: applyRecruitment_def Let_def)
qed

theorem C8_gold_never_negative_witness:
  "\<exists>s node. run fourFleets initialApp = Some s \<and> reachable s \<and> gold (resources s) ROME = 0 \<and>
      playerFaction s = ROME \<and> map_of (nodes s) ''rome'' = Some node \<and> ownerN node = ROME \<and>
      handleRecruit ''f5'' FLEET s = Some s \<and> handleFortify s = Some s \<and>
      applyRecruitment envW (''rome'', FLEET) (s, 0) = Some (s, 0)"
proof -
  have "run fourFleets initialApp \<noteq> None"
    by (simp add: fourFleets_def eval_commands)
  then obtain s where r: "run fourFleets initialApp = Some s" by auto
  have g: "map_option (\<lambda>s. gold (resources s) ROME) (run fourFleets initialApp) = Some 0"
    and p: "map_option playerFaction (run fourFleets initialApp) = Some ROME"
    and n: "map_option (\<lambda>s. map_option ownerN (map_of (nodes s) ''rome'')) (run fourFleets initialApp)
             = Some (Some ROME)"
    by (simp_all add: fourFleets_def eval_commands)
  from r g p n have g0: "gold (resources s) ROME = 0" and pf: "playerFaction s = ROME"
    and "map_option ownerN (map_of (nodes s) ''rome'') = Some ROME" by simp_all
  then obtain node where nd: "map_of (nodes s) ''rome'' = Some node" "ownerN node = ROME" by auto
  have re: "reachable s" using reachable.init r by (rule reachable_run)
  have c: "goldC (unitCost FLEET) = 200" "FORTIFY_COST = 150"
    by (simp_all add: unitCost_def UNIT_COST_FLEET_def FORTIFY_COST_def)
  from C8_gold_never_negative[of s ROME FLEET "''f5''" "''rome''" node envW 0] re g0 pf nd c
  have "handleRecruit ''f5'' FLEET s = Some s" "handleFortify s = Some s"
    "applyRecruitment envW (''rome'', FLEET) (s, 0) = Some (s, 0)" by simp_all
  with r re g0 pf nd show ?thesis by blast
qed

text \<open>
  C9. A unit in training is skipped by the loop (it starts no combat and conquers nothing) and
  the enemy filter leaves it out, so the opponent the loop picks is never in training. Through
  the whole arrival loop of a tick a unit in training keeps every field, strength included,
  and its id is not put on the dead list, so the purge keeps it, also when idle enemy units
  stand at its node. Ids are UUIDs, taken as distinct. The flag meant is the one the loop reads,
  after the training step of the same tick; a unit that starts a tick in training with progress
  below 100 is still in training then, and is in the world after the tick with its strength.
\<close>

theorem C9_training_immunity:
  "(isTraining (units (st t) ! k) \<longrightarrow> arrival env k t = Some t) \<and>
   (findIndex (isEnemyOf (deadUnitIds t) u) (units (st t)) = Some j \<longrightarrow> \<not> isTraining (units (st t) ! j)) \<and>
   (arrivals env is t = Some t' \<and> (\<forall>i \<in> set is. i < length (units (st t))) \<and>
    distinct (map idU (units (st t))) \<and> k < length (units (st t)) \<and>
    isTraining (units (st t) ! k) \<and> idU (units (st t) ! k) \<notin> set (deadUnitIds t)
      \<longrightarrow> units (st t') ! k = units (st t) ! k \<and> k < length (units (st t')) \<and>
          idU (units (st t) ! k) \<notin> set (deadUnitIds t') \<and>
          units (st t) ! k \<in> set (units (st (purge t')))) \<and>
   (updateGame env s = Some s' \<and> hasStarted s \<and> gameSpeed s \<noteq> 0 \<and> \<not> gameOver s \<and>
    distinct (map idU (units s)) \<and> k < length (units s) \<and>
    isTraining (units s ! k) \<and> trainingProgress (units s ! k) < 100
      \<longrightarrow> (\<exists>v \<in> set (units s'). idU v = idU (units s ! k) \<and> strength v = strength (units s ! k) \<and>
             isTraining v \<and> trainingProgress v = trainingProgress (units s ! k) + 5))"
proof (intro conjI impI)
  assume "isTraining (units (st t) ! k)"
  then show "arrival env k t = Some t" by (simp add: arrival_def Let_def)
next
  assume "findIndex (isEnemyOf (deadUnitIds t) u) (units (st t)) = Some j"
  from findIndex_SomeD[OF this] show "\<not> isTraining (units (st t) ! j)" by (simp add: isEnemyOf_def)
next
  assume a: "arrivals env is t = Some t' \<and> (\<forall>i \<in> set is. i < length (units (st t))) \<and>
    distinct (map idU (units (st t))) \<and> k < length (units (st t)) \<and>
    isTraining (units (st t) ! k) \<and> idU (units (st t) ! k) \<notin> set (deadUnitIds t)"
  then have r: "units (st t') ! k = units (st t) ! k" "idU (units (st t) ! k) \<notin> set (deadUnitIds t')"
    "map idU (units (st t')) = map idU (units (st t))"
    using arrivals_training[of env "is" t t' k] by simp_all
  from r(3) a have len: "k < length (units (st t'))" by (metis length_map)
  show "units (st t') ! k = units (st t) ! k" by (rule r(1))
  show "k < length (units (st t'))" by (rule len)
  show "idU (units (st t) ! k) \<notin> set (deadUnitIds t')" by (rule r(2))
  from r(1,2) nth_mem[OF len] have "units (st t') ! k \<in> set (units (st (purge t')))"
    by (simp add: purge_fields)
  with r(1) show "units (st t) ! k \<in> set (units (st (purge t')))" by simp
next
  assume a: "updateGame env s = Some s' \<and> hasStarted s \<and> gameSpeed s \<noteq> 0 \<and> \<not> gameOver s \<and>
    distinct (map idU (units s)) \<and> k < length (units s) \<and>
    isTraining (units s ! k) \<and> trainingProgress (units s ! k) < 100"
  then have "updateGame env s = Some s'" "hasStarted s" "gameSpeed s \<noteq> 0" "\<not> gameOver s"
    "distinct (map idU (units s))" "k < length (units s)" "isTraining (units s ! k)"
    "trainingProgress (units s ! k) < 100" by simp_all
  then show "\<exists>v \<in> set (units s'). idU v = idU (units s ! k) \<and> strength v = strength (units s ! k) \<and>
             isTraining v \<and> trainingProgress v = trainingProgress (units s ! k) + 5"
    by (rule tick_training)
qed

theorem C9_training_immunity_witness:
  "isTraining recruit \<and> locationId recruit = locationId hannibal \<and> ownerU recruit \<noteq> ownerU hannibal \<and>
   \<not> isMoving hannibal \<and> \<not> isTraining hannibal \<and>
   arrival envW 1 ambush = Some ambush \<and>
   findIndex (isEnemyOf (deadUnitIds ambush) hannibal) (units (st ambush)) = None \<and>
   findIndex (isEnemyOf [] recruit) (units (st battle)) = Some 0 \<and> \<not> isTraining (units (st battle) ! 0) \<and>
   (\<exists>t'. arrivals envW [0, 1] ambush = Some t' \<and> units (st t') ! 1 = recruit \<and>
         recruit \<in> set (units (st (purge t')))) \<and>
   (\<exists>s'. updateGame envW (st ambush) = Some s' \<and>
         (''r'', 100, True, 5) \<in> set (map (\<lambda>v. (idU v, strength v, isTraining v, trainingProgress v))
                                       (units s')))"
proof -
  have u: "units (st ambush) = [hannibal, recruit]" "deadUnitIds ambush = []"
    "units (st battle) = [hannibal, legion]" "deadUnitIds battle = []"
    by (simp_all add: ambush_def battle_def)
  have h: "isTraining recruit" "locationId recruit = locationId hannibal"
    "ownerU recruit \<noteq> ownerU hannibal" "\<not> isMoving hannibal" "\<not> isTraining hannibal"
    "idU recruit = ''r''" "idU hannibal = ''h''"
    by (simp_all add: recruit_def hannibal_def newUnit_def)
  from C9_training_immunity[where t = ambush and k = 1 and env = envW] h
  have A: "arrival envW 1 ambush = Some ambush" by (simp add: u)
  have f: "findIndex (isEnemyOf [] recruit) (units (st battle)) = Some 0"
    by (simp add: u isEnemyOf_def recruit_def hannibal_def newUnit_def)
  from C9_training_immunity[where t = battle and u = recruit and j = 0] f
  have B: "\<not> isTraining (units (st battle) ! 0)" by (simp add: u)
  have "arrivals envW [0, 1] ambush \<noteq> None"
    by (simp add: ambush_def hannibal_def recruit_def eval_tick)
  then obtain t' where t': "arrivals envW [0, 1] ambush = Some t'" by auto
  from C9_training_immunity[where t = ambush and k = 1 and env = envW and t' = t' and ?is = "[0, 1]"]
    t' h
  have C: "units (st t') ! 1 = recruit" "recruit \<in> set (units (st (purge t')))"
    by (simp_all add: u)
  have N: "findIndex (isEnemyOf (deadUnitIds ambush) hannibal) (units (st ambush)) = None"
    by (simp add: u isEnemyOf_def h)
  have "updateGame envW (st ambush) \<noteq> None"
    by (simp add: ambush_def hannibal_def recruit_def eval_tick)
  then obtain s' where s': "updateGame envW (st ambush) = Some s'" by auto
  have g: "hasStarted (st ambush)" "gameSpeed (st ambush) \<noteq> 0" "\<not> gameOver (st ambush)"
    "distinct (map idU (units (st ambush)))" "units (st ambush) ! 1 = recruit"
    "strength recruit = 100" "trainingProgress recruit = 0"
    by (simp_all add: u h ambush_def initialApp_def recruit_def newUnit_def UNIT_STRENGTH_ARMY_def)
  from C9_training_immunity[where s = "st ambush" and s' = s' and k = 1 and env = envW] s' g h(1)
  have E: "\<exists>v \<in> set (units s'). idU v = ''r'' \<and> strength v = 100 \<and> isTraining v \<and> trainingProgress v = 5"
    by (simp add: u h)
  have D: "(''r'', 100, True, 5) \<in> set (map (\<lambda>v. (idU v, strength v, isTraining v, trainingProgress v))
                                       (units s'))"
  proof -
    from E obtain v where "v \<in> set (units s')" "idU v = ''r''" "strength v = 100" "isTraining v"
      "trainingProgress v = 5" by (elim bexE conjE)
    then have e: "(''r'', 100, True, 5) = (idU v, strength v, isTraining v, trainingProgress v)"
      by simp
    show ?thesis unfolding set_map
      by (rule image_eqI[where x = v]) (fact e, fact \<open>v \<in> set (units s')\<close>)
  qed
  show ?thesis
    by (intro conjI h(1,2,3,4,5) A N f B exI[of _ t'] exI[of _ s'] t' C s' D)
qed

text \<open>
  C10. The fortify handler tests neither the owner of the selected node nor the game-over
  flag: for any selected node, with gold of at least 150 and a level below 3, it takes 150 gold
  from the player's faction and raises the level of that node by one. (The node is found under
  its own id, as in every reachable state.)
\<close>

theorem C10_fortify_ignores_owner_and_game_over:
  assumes "selectedNodeId s = Some sel" "sel \<noteq> []"
    and "map_of (nodes s) sel = Some node" "idN node = sel"
    and "gold (resources s) (playerFaction s) \<ge> 150" "fortificationLevel node < 3"
  shows "\<exists>s'. handleFortify s = Some s' \<and>
           gold (resources s') = (gold (resources s))
              (playerFaction s := gold (resources s) (playerFaction s) - 150) \<and>
           map_of (nodes s') = (map_of (nodes s))
              (sel \<mapsto> node\<lparr>fortificationLevel := fortificationLevel node + 1\<rparr>) \<and>
           FORTIFY_COST = 150 \<and> MAX_FORTIFICATION = 3"
  using assms
  by (simp add: handleFortify_def truthy_def Let_def FORTIFY_COST_def MAX_FORTIFICATION_def
        setGold_def update_conv')

theorem C10_fortify_ignores_owner_and_game_over_witness:
  "gameOver lostGame \<and> playerFaction lostGame = ROME \<and>
   map_option ownerN (map_of (nodes lostGame) ''carthage'') = Some CARTHAGE \<and>
   (\<exists>s'. handleFortify lostGame = Some s' \<and> gold (resources s') ROME = 650 \<and>
         map_option fortificationLevel (map_of (nodes s') ''carthage'') = Some 2)"
proof -
  obtain node where n: "map_of (nodes lostGame) ''carthage'' = Some node" "idN node = ''carthage''"
    "fortificationLevel node = 1" "ownerN node = CARTHAGE"
    by (simp add: lostGame_def initialApp_def INITIAL_NODES_def createNode_def)
  have g: "selectedNodeId lostGame = Some ''carthage''" "gold (resources lostGame) ROME = 800"
    "playerFaction lostGame = ROME" "gameOver lostGame"
    by (simp_all add: lostGame_def initialApp_def initialGold_def INITIAL_GOLD_def)
  from C10_fortify_ignores_owner_and_game_over[of lostGame "''carthage''" node] n g
  obtain s' where "handleFortify lostGame = Some s'"
    "gold (resources s') = (gold (resources lostGame))(ROME := 650)"
    "map_of (nodes s') = (map_of (nodes lostGame))(''carthage'' \<mapsto> node\<lparr>fortificationLevel := 2\<rparr>)"
    by auto
  with n g show ?thesis by simp
qed

end
